theory Spec2Isabelle
  imports Main
begin

section \<open>Strings of the Python 2 source\<close>

text \<open>
  The module is Python 2 code (\<^verbatim>\<open>base64.decodestring\<close>, \<^verbatim>\<open>str.decode\<close>): what
  \<^verbatim>\<open>readline\<close> returns is a byte string, modelled as \<^typ>\<open>string\<close>, a list of
  8-bit characters. \<^verbatim>\<open>_unfoldLDIFLine\<close> decodes the first physical line as UTF-8 and
  joins it with the continuation lines, so a logical line is a \<^verbatim>\<open>unicode\<close> object.
  The model covers the 7-bit ASCII fragment, where decoding keeps every byte as it is:
  a first physical line with a byte above 0x7f ends the run with the outcome
  \<open>NonAsciiLine\<close>, which stands for what is not modelled (Python either
  raises \<^verbatim>\<open>UnicodeDecodeError\<close> or goes on with code points that do not fit a byte).
\<close>

abbreviation LF :: char where "LF \<equiv> CHR 0x0A"
abbreviation CR :: char where "CR \<equiv> CHR 0x0D"

definition is_ascii :: "char \<Rightarrow> bool" where
  "is_ascii c = (of_char c < (128::nat))"

definition ascii :: "string \<Rightarrow> bool" where
  "ascii s = list_all is_ascii s"

text \<open>\<^verbatim>\<open>unicode.lower\<close> on ASCII text: only \<^verbatim>\<open>A-Z\<close> change.\<close>

definition lower_char :: "char \<Rightarrow> char" where
  "lower_char c =
     (let n = (of_char c :: nat) in if 65 \<le> n \<and> n \<le> 90 then char_of (n + 32) else c)"

definition lower :: "string \<Rightarrow> string" where
  "lower s = map lower_char s"

text \<open>
  \<^verbatim>\<open>unicode.lstrip()\<close> removes leading characters for which \<^verbatim>\<open>isspace\<close> holds; below
  0x80 these are 0x09-0x0D, 0x1C-0x1F and the space.
\<close>

definition is_space :: "char \<Rightarrow> bool" where
  "is_space c =
     (let n = (of_char c :: nat) in (9 \<le> n \<and> n \<le> 13) \<or> (28 \<le> n \<and> n \<le> 32))"

definition lstrip :: "string \<Rightarrow> string" where
  "lstrip s = dropWhile is_space s"

text \<open>\<^verbatim>\<open>s.index(c)\<close>: the position of the first \<open>c\<close>; \<open>None\<close> is the \<^verbatim>\<open>ValueError\<close>.\<close>

definition str_index :: "char \<Rightarrow> string \<Rightarrow> nat option" where
  "str_index c s = (if c \<in> set s then Some (length (takeWhile (\<lambda>x. x \<noteq> c) s)) else None)"

section \<open>Regular expressions of \<^verbatim>\<open>re\<close>, as a backtracking matcher\<close>

text \<open>
  \<^verbatim>\<open>re\<close> is a backtracking matcher: it tries the alternatives of a pattern in a fixed
  order and returns the first way through. \<open>matches r s\<close> lists, in that order, what
  is left of \<open>s\<close> after each way of matching \<open>r\<close> at its start. \<open>Star\<close> and \<open>Plus\<close>
  are the greedy \<^verbatim>\<open>*\<close> and \<^verbatim>\<open>+\<close>, \<open>LazyStar\<close> is \<^verbatim>\<open>*?\<close>, \<open>Eol\<close> is \<^verbatim>\<open>$\<close> (the end of
  the string, or just before a line feed that ends it). \<^verbatim>\<open>^\<close> holds at position 0,
  where \<^verbatim>\<open>match\<close> starts, and is left out.
\<close>

datatype regex =
    Chr "char \<Rightarrow> bool"
  | Seq regex regex
  | Alt regex regex
  | Star regex
  | Plus regex
  | LazyStar regex
  | Eol

text \<open>
  One more round of a repetition is tried only where the body consumed a character (as
  \<^verbatim>\<open>re\<close> refuses an empty round), so a fuel of \<open>length s\<close> rounds is never used up.
\<close>

fun greedy :: "nat \<Rightarrow> (string \<Rightarrow> string list) \<Rightarrow> string \<Rightarrow> string list" where
  "greedy 0 f s = [s]"
| "greedy (Suc n) f s =
     concat (map (\<lambda>t. if length t < length s then greedy n f t else []) (f s)) @ [s]"

fun lazy :: "nat \<Rightarrow> (string \<Rightarrow> string list) \<Rightarrow> string \<Rightarrow> string list" where
  "lazy 0 f s = [s]"
| "lazy (Suc n) f s =
     s # concat (map (\<lambda>t. if length t < length s then lazy n f t else []) (f s))"

fun matches :: "regex \<Rightarrow> string \<Rightarrow> string list" where
  "matches (Chr P) s = (case s of [] \<Rightarrow> [] | c # cs \<Rightarrow> if P c then [cs] else [])"
| "matches (Seq a b) s = concat (map (\<lambda>t. matches b t) (matches a s))"
| "matches (Alt a b) s = matches a s @ matches b s"
| "matches (Star a) s = greedy (length s) (\<lambda>t. matches a t) s"
| "matches (Plus a) s =
     concat (map (\<lambda>t. greedy (length t) (\<lambda>u. matches a u) t) (matches a s))"
| "matches (LazyStar a) s = lazy (length s) (\<lambda>t. matches a t) s"
| "matches Eol s = (if s = [] \<or> s = [LF] then [s] else [])"

text \<open>\<^verbatim>\<open>regex.match(s)\<close>: \<^verbatim>\<open>group(0)\<close> of the first match, \<open>None\<close> when there is none.\<close>

definition re_match :: "regex \<Rightarrow> string \<Rightarrow> string option" where
  "re_match r s =
     (case matches r s of [] \<Rightarrow> None | t # _ \<Rightarrow> Some (take (length s - length t) s))"

subsection \<open>The DN grammar (lines 39-43)\<close>

definition lit :: "char \<Rightarrow> regex" where
  "lit c = Chr (\<lambda>x. x = c)"

text \<open>\<^verbatim>\<open>\w\<close> without the \<^verbatim>\<open>UNICODE\<close> and \<^verbatim>\<open>LOCALE\<close> flags: \<^verbatim>\<open>[a-zA-Z0-9_]\<close>.\<close>

definition word_char :: "char \<Rightarrow> bool" where
  "word_char c =
     (let n = (of_char c :: nat)
      in (48 \<le> n \<and> n \<le> 57) \<or> (65 \<le> n \<and> n \<le> 90) \<or> (97 \<le> n \<and> n \<le> 122) \<or> n = 95)"

definition spaces :: regex where
  "spaces = Star (lit CHR '' '')"

definition attrtype_pattern :: regex where
  "attrtype_pattern =
     Seq (Plus (Chr (\<lambda>c. word_char c \<or> c = CHR '';'' \<or> c = CHR ''.'')))
         (Star (Seq (lit CHR '';'')
                    (Plus (Chr (\<lambda>c. word_char c \<or> c = CHR ''_'' \<or> c = CHR ''-'')))))"

definition attrvalue_pattern :: regex where
  "attrvalue_pattern =
     Alt (Plus (Alt (Chr (\<lambda>c. c \<noteq> CHR '','')) (Seq (lit (CHR 0x5C)) (lit CHR '',''))))
         (Seq (lit (CHR 0x22)) (Seq (LazyStar (Chr (\<lambda>c. c \<noteq> LF))) (lit (CHR 0x22))))"

definition rdn_pattern :: regex where
  "rdn_pattern =
     Seq attrtype_pattern (Seq spaces (Seq (lit CHR ''='') (Seq spaces attrvalue_pattern)))"

definition dn_pattern :: regex where
  "dn_pattern =
     Seq rdn_pattern
         (Seq (Star (Seq spaces (Seq (lit CHR '','') (Seq spaces rdn_pattern)))) spaces)"

definition dn_regex :: regex where
  "dn_regex = Seq dn_pattern Eol"

text \<open>\<^verbatim>\<open>is_dn\<close> (lines 64-71).\<close>

definition is_dn :: "string \<Rightarrow> bool" where
  "is_dn s =
     (if s = [] then True
      else (case re_match dn_regex s of None \<Rightarrow> False | Some g \<Rightarrow> g = s))"

section \<open>\<^verbatim>\<open>base64.decodestring\<close>\<close>

text \<open>
  \<^verbatim>\<open>base64.decodestring\<close> is \<^verbatim>\<open>binascii.a2b_base64\<close>, modelled after its loop in
  CPython 2.7: characters outside the alphabet are skipped, a pad ends the input once
  two characters of a quad have been read, and bits left over at the end raise
  \<^verbatim>\<open>binascii.Error\<close> (``Incorrect padding'').
\<close>

datatype value_error =
    TwoDn
  | InvalidDn string
  | ChangetypeBeforeDn
  | TwoChangetype
  | InvalidChangetype string

datatype error =
    ValueError value_error
  | BinasciiError
  | UnicodeDecodeError
  | NonAsciiLine

text \<open>\<^verbatim>\<open>table_a2b_base64\<close>; the pad \<^verbatim>\<open>=\<close> has the value 0 in it.\<close>

definition b64_value :: "char \<Rightarrow> nat option" where
  "b64_value c =
     (let n = (of_char c :: nat)
      in if 65 \<le> n \<and> n \<le> 90 then Some (n - 65)
         else if 97 \<le> n \<and> n \<le> 122 then Some (n - 71)
         else if 48 \<le> n \<and> n \<le> 57 then Some (n + 4)
         else if c = CHR ''+'' then Some 62
         else if c = CHR ''/'' then Some 63
         else if c = CHR ''='' then Some 0
         else None)"

text \<open>\<^verbatim>\<open>binascii_find_valid(s, slen, num)\<close>: the valid character number \<open>num\<close>, from 0.\<close>

fun find_valid :: "string \<Rightarrow> nat \<Rightarrow> char option" where
  "find_valid [] num = None"
| "find_valid (c # cs) num =
     (if is_ascii c \<and> b64_value c \<noteq> None
      then (if num = 0 then Some c else find_valid cs (num - 1))
      else find_valid cs num)"

definition a2b_finish :: "nat \<Rightarrow> string \<Rightarrow> error + string" where
  "a2b_finish leftbits out = (if leftbits \<noteq> 0 then Inl BinasciiError else Inr out)"

fun a2b_loop :: "string \<Rightarrow> nat \<Rightarrow> nat \<Rightarrow> nat \<Rightarrow> string \<Rightarrow> error + string" where
  "a2b_loop [] quad_pos leftbits leftchar out = a2b_finish leftbits out"
| "a2b_loop (c # cs) quad_pos leftbits leftchar out =
     (if \<not> is_ascii c \<or> c = CR \<or> c = LF \<or> c = CHR '' ''
      then a2b_loop cs quad_pos leftbits leftchar out
      else if c = CHR ''=''
      then (if quad_pos < 2 \<or> (quad_pos = 2 \<and> find_valid (c # cs) 1 \<noteq> Some CHR ''='')
            then a2b_loop cs quad_pos leftbits leftchar out
            else a2b_finish 0 out)
      else (case b64_value c of
              None \<Rightarrow> a2b_loop cs quad_pos leftbits leftchar out
            | Some v \<Rightarrow>
                (let quad_pos' = (quad_pos + 1) mod 4;
                     leftchar' = leftchar * 64 + v;
                     leftbits' = leftbits + 6
                 in if 8 \<le> leftbits'
                    then a2b_loop cs quad_pos' (leftbits' - 8)
                           (leftchar' mod 2 ^ (leftbits' - 8))
                           (out @ [char_of ((leftchar' div 2 ^ (leftbits' - 8)) mod 256)])
                    else a2b_loop cs quad_pos' leftbits' leftchar' out)))"

definition decodestring :: "string \<Rightarrow> error + string" where
  "decodestring s = a2b_loop s 0 0 0 []"

section \<open>The parser object\<close>

text \<open>
  An entry is a Python \<^verbatim>\<open>dict\<close> from attribute type to the list of its values, kept as
  an association list with distinct keys in the order of first insertion.
  \<open>input_file\<close> is what is left to read of the file, \<open>line\<close> is \<^verbatim>\<open>self._line\<close>,
  \<open>ignored_attr_types\<close> holds the keys of \<^verbatim>\<open>self._ignored_attr_types\<close>, and
  \<open>all_records\<close> is the list that \<^verbatim>\<open>LDIFRecordList.handle\<close> appends to: one element for
  each call of the handler, in the order of the calls.
\<close>

type_synonym entry = "(string \<times> string list) list"

record parser =
  input_file :: string
  max_entries :: int
  ignored_attr_types :: "string list"
  line :: string
  records_read :: int
  all_records :: "(string option \<times> entry) list"

text \<open>\<^verbatim>\<open>__init__\<close> (lines 109-140, 270-273).\<close>

definition LDIFParser_init :: "string \<Rightarrow> string list \<Rightarrow> int \<Rightarrow> parser" where
  "LDIFParser_init f ignored m =
     \<lparr>input_file = f, max_entries = m, ignored_attr_types = map lower ignored,
      line = [], records_read = 0, all_records = []\<rparr>"

text \<open>\<^verbatim>\<open>file.readline\<close>: up to and with the next line feed; empty at the end of the file.\<close>

fun readline :: "string \<Rightarrow> string \<times> string" where
  "readline [] = ([], [])"
| "readline (c # cs) =
     (if c = LF then ([c], cs) else (case readline cs of (l, r) \<Rightarrow> (c # l, r)))"

text \<open>\<^verbatim>\<open>self._line = self._input_file.readline()\<close>\<close>

definition read_next :: "parser \<Rightarrow> parser" where
  "read_next p =
     (case readline (input_file p) of (l, r) \<Rightarrow> p\<lparr>line := l, input_file := r\<rparr>)"

text \<open>\<^verbatim>\<open>_stripLineSep\<close> (lines 98-107).\<close>

definition stripLineSep :: "string \<Rightarrow> string" where
  "stripLineSep s =
     (if drop (length s - 2) s = [CR, LF] then take (length s - 2) s
      else if drop (length s - 1) s = [LF] then take (length s - 1) s
      else s)"

section \<open>Line unfolder (lines 148-159)\<close>

text \<open>What is left to read, the buffered line included: the loops below go down on it.\<close>

definition unread :: "parser \<Rightarrow> nat" where
  "unread p = length (line p) + length (input_file p)"

lemma readline_length: "length (fst (readline s)) + length (snd (readline s)) = length s"
  by (induction s) (auto split: prod.splits)

lemma unread_read_next: "unread (read_next p) = length (input_file p)"
  using readline_length [of "input_file p"]
  by (cases "readline (input_file p)") (simp add: unread_def read_next_def)

function unfold_loop :: "string list \<Rightarrow> parser \<Rightarrow> string list \<times> parser" where
  "unfold_loop unfolded_lines p =
     (if line p \<noteq> [] \<and> hd (line p) = CHR '' ''
      then unfold_loop (unfolded_lines @ [stripLineSep (tl (line p))]) (read_next p)
      else (unfolded_lines, p))"
  by pat_completeness auto
termination
proof (relation "measure (\<lambda>(u, p). unread p)")
  show "wf (measure (\<lambda>(u, p). unread p))" by simp
next
  fix unfolded_lines :: "string list" and p :: parser
  assume "line p \<noteq> [] \<and> hd (line p) = CHR '' ''"
  then have "length (input_file p) < unread p"
    by (simp add: unread_def)
  then show "((unfolded_lines @ [stripLineSep (tl (line p))], read_next p), (unfolded_lines, p))
               \<in> measure (\<lambda>(u, p). unread p)"
    by (simp add: unread_read_next)
qed

declare unfold_loop.simps [simp del]

text \<open>
  The first line is decoded; the continuation lines are byte strings, which
  \<^verbatim>\<open>''.join\<close> decodes as ASCII when it meets them after a \<^verbatim>\<open>unicode\<close> first element.
\<close>

definition unfoldLDIFLine :: "parser \<Rightarrow> (error + string) \<times> parser" where
  "unfoldLDIFLine p =
     (if \<not> ascii (line p) then (Inl NonAsciiLine, p)
      else (case unfold_loop [stripLineSep (line p)] (read_next p) of
              (unfolded_lines, p') \<Rightarrow>
                if list_all ascii unfolded_lines then (Inr (concat unfolded_lines), p')
                else (Inl UnicodeDecodeError, p')))"


lemma unread_read_next_le: "unread (read_next p) \<le> unread p"
  by (subst unread_read_next) (simp add: unread_def)

lemma unread_read_next_less: "line p \<noteq> [] \<Longrightarrow> unread (read_next p) < unread p"
  by (subst unread_read_next) (simp add: unread_def)

lemma unfold_loop_unread:
  "unfold_loop u p = (u', p') \<Longrightarrow> unread p' \<le> unread p \<and> (u' \<noteq> u \<longrightarrow> unread p' < unread p)"
proof (induction u p rule: unfold_loop.induct)
  case (1 u p)
  show ?case
  proof (cases "line p \<noteq> [] \<and> hd (line p) = CHR '' ''")
    case True
    then have eq: "unfold_loop (u @ [stripLineSep (tl (line p))]) (read_next p) = (u', p')"
      using "1.prems" by (simp add: unfold_loop.simps [of u p])
    from "1.IH" [OF True eq] have "unread p' \<le> unread (read_next p)" by simp
    moreover from True have "unread (read_next p) < unread p"
      by (simp add: unread_read_next_less)
    ultimately show ?thesis by simp
  next
    case False
    then show ?thesis using "1.prems"
      by (auto simp: unfold_loop.simps [of u p] split: if_splits)
  qed
qed

lemma unfoldLDIFLine_unread:
  assumes "unfoldLDIFLine p = (Inr u, p')"
  shows "unread p' \<le> unread p \<and> (line p \<noteq> [] \<or> u \<noteq> [] \<longrightarrow> unread p' < unread p)"
proof -
  obtain fs q where lp: "unfold_loop [stripLineSep (line p)] (read_next p) = (fs, q)"
    by (cases "unfold_loop [stripLineSep (line p)] (read_next p)")
  from assms lp have u: "u = concat fs" and q: "p' = q"
    by (auto simp: unfoldLDIFLine_def split: if_splits)
  from unfold_loop_unread [OF lp]
  have le: "unread q \<le> unread (read_next p)"
    and lt: "fs \<noteq> [stripLineSep (line p)] \<Longrightarrow> unread q < unread (read_next p)"
    by simp_all
  have "unread q \<le> unread p" using le unread_read_next_le [of p] by simp
  moreover have "unread q < unread p" if "line p \<noteq> []"
    using that le unread_read_next_less [of p] by simp
  moreover have "unread q < unread p" if "line p = []" "u \<noteq> []"
  proof -
    have "fs \<noteq> [stripLineSep (line p)]"
      using that u by (auto simp: stripLineSep_def)
    from lt [OF this] show ?thesis using unread_read_next_le [of p] by simp
  qed
  ultimately show ?thesis using q by blast
qed

function skip_comments :: "string \<Rightarrow> parser \<Rightarrow> (error + string) \<times> parser" where
  "skip_comments unfolded_line p =
     (if unfolded_line \<noteq> [] \<and> hd unfolded_line = CHR ''#''
      then (case unfoldLDIFLine p of
              (Inl e, p') \<Rightarrow> (Inl e, p')
            | (Inr unfolded_line', p') \<Rightarrow> skip_comments unfolded_line' p')
      else (Inr unfolded_line, p))"
  by pat_completeness auto
termination
  apply (relation "measure (\<lambda>(u, p). 2 * unread p + (if u \<noteq> [] \<and> hd u = CHR ''#'' then 1 else 0))")
   apply simp
  subgoal for u p x1 p' u'
    using unfoldLDIFLine_unread [of p u' p'] 
    by auto
  done


declare skip_comments.simps [simp del]

lemma skip_comments_unread:
  "skip_comments u p = (Inr u', p') \<Longrightarrow>
     unread p' \<le> unread p \<and> (u' \<noteq> [] \<longrightarrow> u' = u \<or> unread p' < unread p)"
proof (induction u p rule: skip_comments.induct)
  case (1 u p)
  show ?case
  proof (cases "u \<noteq> [] \<and> hd u = CHR ''#''")
    case True
    obtain r q where uf: "unfoldLDIFLine p = (r, q)"
      by (cases "unfoldLDIFLine p")
    with True "1.prems" obtain v where r: "r = Inr v" and rec: "skip_comments v q = (Inr u', p')"
      by (cases r) (auto simp: skip_comments.simps [of u p])
    from "1.IH" [OF True uf [symmetric] r rec]
    have le: "unread p' \<le> unread q" and alt: "u' \<noteq> [] \<Longrightarrow> u' = v \<or> unread p' < unread q"
      by simp_all
    from unfoldLDIFLine_unread [OF uf [unfolded r]]
    have le2: "unread q \<le> unread p" and lt2: "v \<noteq> [] \<Longrightarrow> unread q < unread p"
      by simp_all
    show ?thesis using le alt le2 lt2 by force
  next
    case False
    then show ?thesis using "1.prems"
      by (auto simp: skip_comments.simps [of u p] split: if_splits)
  qed
qed

text \<open>
  From an unfolded line to the pair of attribute type and value (lines 171-199);
  \<open>None\<close> is Python's \<^verbatim>\<open>None\<close>.
\<close>

definition attr_of_line :: "string \<Rightarrow> error + (string option \<times> string option)" where
  "attr_of_line unfolded_line =
     (if unfolded_line = [] \<or> unfolded_line = [LF] \<or> unfolded_line = [CR, LF]
      then Inr (None, None)
      else (case str_index CHR '':'' unfolded_line of
              None \<Rightarrow> Inr (None, None)
            | Some colon_pos \<Rightarrow>
                (let attr_type = take colon_pos unfolded_line;
                     value_spec = take 2 (drop colon_pos unfolded_line)
                 in if value_spec = ''::''
                    then (case decodestring (drop (colon_pos + 2) unfolded_line) of
                            Inl e \<Rightarrow> Inl e
                          | Inr attr_value \<Rightarrow> Inr (Some attr_type, Some attr_value))
                    else if value_spec = '':<'' then Inr (Some attr_type, None)
                    else if value_spec = [CHR '':'', CR, LF] \<or> value_spec = [LF]
                    then Inr (Some attr_type, Some [])
                    else Inr (Some attr_type,
                              Some (lstrip (drop (colon_pos + 2) unfolded_line))))))"

definition parseAttrTypeandValue ::
  "parser \<Rightarrow> (error + (string option \<times> string option)) \<times> parser" where
  "parseAttrTypeandValue p =
     (case unfoldLDIFLine p of
        (Inl e, p1) \<Rightarrow> (Inl e, p1)
      | (Inr unfolded_line, p1) \<Rightarrow>
          (case skip_comments unfolded_line p1 of
             (Inl e, p2) \<Rightarrow> (Inl e, p2)
           | (Inr unfolded_line', p2) \<Rightarrow>
               (case attr_of_line unfolded_line' of
                  Inl e \<Rightarrow> (Inl e, p2)
                | Inr tok \<Rightarrow> (Inr tok, p2))))"

lemma attr_of_line_Some: "attr_of_line u = Inr (Some t, v) \<Longrightarrow> u \<noteq> []"
  by (auto simp: attr_of_line_def)

lemma parseAttrTypeandValue_unread:
  assumes "parseAttrTypeandValue p = (Inr tok, p')"
  shows "unread p' \<le> unread p \<and> (line p \<noteq> [] \<or> fst tok \<noteq> None \<longrightarrow> unread p' < unread p)"
proof -
  from assms obtain u p1 where uf: "unfoldLDIFLine p = (Inr u, p1)"
    by (auto simp: parseAttrTypeandValue_def split: prod.splits sum.splits)
  with assms obtain u2 where sk: "skip_comments u p1 = (Inr u2, p')"
    and tk: "attr_of_line u2 = Inr tok"
    by (auto simp: parseAttrTypeandValue_def split: prod.splits sum.splits)
  note a = unfoldLDIFLine_unread [OF uf] and b = skip_comments_unread [OF sk]
  have "u2 \<noteq> []" if "fst tok \<noteq> None"
    using that tk attr_of_line_Some [of u2 _ "snd tok"] by (cases tok) auto
  then show ?thesis using a b by force
qed

section \<open>Record assembler (lines 201-249)\<close>

definition CHANGE_TYPES :: "string list" where
  "CHANGE_TYPES = [''add'', ''delete'', ''modify'', ''modrdn'']"

text \<open>Lines 238-241.\<close>

definition entry_add :: "entry \<Rightarrow> string \<Rightarrow> string \<Rightarrow> entry" where
  "entry_add entry attr_type attr_value =
     (if attr_type \<in> fst ` set entry
      then map (\<lambda>(k, vs). if k = attr_type then (k, vs @ [attr_value]) else (k, vs)) entry
      else entry @ [(attr_type, [attr_value])])"

text \<open>
  The body of the inner loop for one pair (lines 219-241). The loop runs it only when
  neither part of the pair is \<^verbatim>\<open>None\<close>, so the test \<^verbatim>\<open>attr_value is not None\<close> of
  line 236 holds whenever it is reached.
\<close>

definition record_step ::
  "string list \<Rightarrow> string option \<times> string option \<times> entry \<Rightarrow> string \<Rightarrow> string \<Rightarrow>
   error + (string option \<times> string option \<times> entry)" where
  "record_step ignored st attr_type attr_value =
     (case st of (dn, changetype, entry) \<Rightarrow>
        if attr_type = ''dn'' then
          (if dn \<noteq> None then Inl (ValueError TwoDn)
           else if \<not> is_dn attr_value then Inl (ValueError (InvalidDn attr_value))
           else Inr (Some attr_value, changetype, entry))
        else if attr_type = ''changetype'' then
          (if dn = None then Inl (ValueError ChangetypeBeforeDn)
           else if changetype \<noteq> None then Inl (ValueError TwoChangetype)
           else if attr_value \<notin> set CHANGE_TYPES
           then Inl (ValueError (InvalidChangetype attr_value))
           else Inr (dn, Some attr_value, entry))
        else if lower attr_type \<notin> set ignored
        then Inr (dn, changetype, entry_add entry attr_type attr_value)
        else Inr (dn, changetype, entry))"

function record_loop ::
  "string option \<times> string option \<times> entry \<Rightarrow> string option \<times> string option \<Rightarrow> parser \<Rightarrow>
   (error + (string option \<times> entry)) \<times> parser" where
  "record_loop st tok p =
     (case tok of
        (Some attr_type, Some attr_value) \<Rightarrow>
          (case record_step (ignored_attr_types p) st attr_type attr_value of
             Inl e \<Rightarrow> (Inl e, p)
           | Inr st' \<Rightarrow>
               (case parseAttrTypeandValue p of
                  (Inl e, p') \<Rightarrow> (Inl e, p')
                | (Inr tok', p') \<Rightarrow> record_loop st' tok' p'))
      | _ \<Rightarrow> (Inr (fst st, snd (snd st)), p))"
  by pat_completeness auto
termination
  apply (relation "measure (\<lambda>(st, tok, p).
           2 * unread p + (if fst tok \<noteq> None \<and> snd tok \<noteq> None then 1 else 0))")
   apply simp
  apply (auto dest!: parseAttrTypeandValue_unread [OF sym])
  done

declare record_loop.simps [simp del]

lemma record_loop_stop:
  "a = None \<or> b = None \<Longrightarrow> record_loop st (a, b) p = (Inr (fst st, snd (snd st)), p)"
  by (auto simp: record_loop.simps [of st "(a, b)" p] split: option.splits)

lemma record_loop_step:
  "record_loop st (Some t, Some v) p =
     (case record_step (ignored_attr_types p) st t v of
        Inl e \<Rightarrow> (Inl e, p)
      | Inr st' \<Rightarrow>
          (case parseAttrTypeandValue p of
             (Inl e, p') \<Rightarrow> (Inl e, p')
           | (Inr tok', p') \<Rightarrow> record_loop st' tok' p'))"
  by (simp add: record_loop.simps [of st "(Some t, Some v)" p])

lemma record_loop_unread:
  "record_loop st tok p = (Inr r, p') \<Longrightarrow> unread p' \<le> unread p"
proof (induction st tok p rule: record_loop.induct)
  case (1 st tok p)
  show ?case
  proof (cases tok)
    case (Pair a b)
    show ?thesis
    proof (cases "\<exists>t v. a = Some t \<and> b = Some v")
      case True
      then obtain t v where tv: "a = Some t" "b = Some v" by blast
      with Pair "1.prems" obtain st' where
        stp: "record_step (ignored_attr_types p) st t v = Inr st'"
        by (cases "record_step (ignored_attr_types p) st t v")
           (auto simp: record_loop_step)
      obtain x q where pa: "parseAttrTypeandValue p = (x, q)"
        by (cases "parseAttrTypeandValue p")
      with Pair tv stp "1.prems" obtain tok' where x: "x = Inr tok'"
        and rec: "record_loop st' tok' q = (Inr r, p')"
        by (cases x) (auto simp: record_loop_step)
      from "1.IH" [OF Pair [symmetric] tv(1) tv(2) stp pa [symmetric] x rec]
      have "unread p' \<le> unread q" .
      moreover from parseAttrTypeandValue_unread [OF pa [unfolded x]]
      have "unread q \<le> unread p" by simp
      ultimately show ?thesis by simp
    next
      case False
      then have "a = None \<or> b = None" by auto
      from record_loop_stop [OF this, of st p] show ?thesis using Pair "1.prems"
        by simp
    qed
  qed
qed

text \<open>\<^verbatim>\<open>self.handle(dn, entry)\<close> and the count after it (lines 248-249).\<close>

definition handle :: "string option \<Rightarrow> entry \<Rightarrow> parser \<Rightarrow> parser" where
  "handle dn entry p = p\<lparr>all_records := all_records p @ [(dn, entry)]\<rparr>"

definition dispatch :: "string option \<times> entry \<Rightarrow> parser \<Rightarrow> parser" where
  "dispatch r p =
     (case r of (dn, entry) \<Rightarrow>
        if entry \<noteq> []
        then (let p' = handle dn entry p in p'\<lparr>records_read := records_read p' + 1\<rparr>)
        else p)"

lemma unread_dispatch: "unread (dispatch r p) = unread p"
  by (cases r) (simp add: dispatch_def handle_def unread_def Let_def)

function parse_loop :: "parser \<Rightarrow> (error + unit) \<times> parser" where
  "parse_loop p =
     (if line p \<noteq> [] \<and> (max_entries p = 0 \<or> records_read p < max_entries p)
      then (case parseAttrTypeandValue p of
              (Inl e, p1) \<Rightarrow> (Inl e, p1)
            | (Inr tok, p1) \<Rightarrow>
                (case record_loop (None, None, []) tok p1 of
                   (Inl e, p2) \<Rightarrow> (Inl e, p2)
                 | (Inr r, p2) \<Rightarrow> parse_loop (dispatch r p2)))
      else (Inr (), p))"
  by pat_completeness auto
termination
  apply (relation "measure unread")
   apply simp
  subgoal for p x1 p1 tok x2 p2 r
    using parseAttrTypeandValue_unread [of p tok p1] record_loop_unread [of "(None, None, [])" tok p1 r p2]
    by (auto simp: unread_dispatch)
  done

declare parse_loop.simps [simp del]

definition parse :: "parser \<Rightarrow> (error + unit) \<times> parser" where
  "parse p = parse_loop (read_next p)"



section \<open>Input texts\<close>

definition positioned :: "string \<Rightarrow> parser \<Rightarrow> parser" where
  "positioned s p = read_next (p\<lparr>input_file := s\<rparr>)"

definition nofold :: "string \<Rightarrow> bool" where
  "nofold s = (case s of [] \<Rightarrow> True | c # _ \<Rightarrow> c \<noteq> CHR '' '')"

definition simple_line :: "string \<Rightarrow> bool" where
  "simple_line u =
     (u \<noteq> [] \<and> ascii u \<and> LF \<notin> set u \<and> last u \<noteq> CR \<and> hd u \<noteq> CHR '' '' \<and> hd u \<noteq> CHR ''#'')"

definition lines_text :: "string list \<Rightarrow> string" where
  "lines_text us = concat (map (\<lambda>u. u @ [LF]) us)"

lemma readline_line: "LF \<notin> set u \<Longrightarrow> readline (u @ LF # r) = (u @ [LF], r)"
  by (induction u) auto

lemma readline_Nil_iff: "fst (readline s) = [] \<longleftrightarrow> s = []"
  by (cases s) (auto split: prod.splits)

lemma hd_readline: "s \<noteq> [] \<Longrightarrow> hd (fst (readline s)) = hd s"
  by (cases s) (auto split: prod.splits)

lemma positioned_fields [simp]:
  "line (positioned s p) = fst (readline s)"
  "input_file (positioned s p) = snd (readline s)"
  "max_entries (positioned s p) = max_entries p"
  "ignored_attr_types (positioned s p) = ignored_attr_types p"
  "records_read (positioned s p) = records_read p"
  "all_records (positioned s p) = all_records p"
  by (simp_all add: positioned_def read_next_def split: prod.splits)

lemma read_next_positioned: "read_next (positioned s p) = positioned (snd (readline s)) p"
  by (simp add: positioned_def read_next_def split: prod.splits)

lemma unfold_loop_nofold:
  assumes "nofold s"
  shows "unfold_loop acc (positioned s p) = (acc, positioned s p)"
proof -
  have "\<not> (line (positioned s p) \<noteq> [] \<and> hd (line (positioned s p)) = CHR '' '')"
    using assms
    by (cases s) (auto simp del: readline.simps simp: nofold_def readline_Nil_iff hd_readline)
  then show ?thesis
    by (subst unfold_loop.simps) auto
qed

lemma stripLineSep_LF: "u = [] \<or> last u \<noteq> CR \<Longrightarrow> stripLineSep (u @ [LF]) = u"
  by (cases u rule: rev_cases) (auto simp: stripLineSep_def)

lemma ascii_append [simp]: "ascii (a @ b) \<longleftrightarrow> ascii a \<and> ascii b"
  by (simp add: ascii_def)

lemma ascii_LF [simp]: "ascii [LF]"
  by (simp add: ascii_def is_ascii_def)

lemma unfoldLDIFLine_single:
  assumes "ascii u" "LF \<notin> set u" "u = [] \<or> last u \<noteq> CR" "nofold r"
  shows "unfoldLDIFLine (positioned (u @ LF # r) p) = (Inr u, positioned r p)"
proof -
  have rl: "readline (u @ LF # r) = (u @ [LF], r)"
    using assms(2) by (rule readline_line)
  have "read_next (positioned (u @ LF # r) p) = positioned r p"
    by (simp add: read_next_positioned rl)
  then show ?thesis
    using assms
    by (simp add: unfoldLDIFLine_def rl unfold_loop_nofold stripLineSep_LF)
qed

lemma skip_comments_none:
  "u = [] \<or> hd u \<noteq> CHR ''#'' \<Longrightarrow> skip_comments u p = (Inr u, p)"
  by (auto simp: skip_comments.simps [of u p])

lemma parse_simple_line:
  assumes "simple_line u" "nofold r"
  shows "parseAttrTypeandValue (positioned (u @ LF # r) p) =
           (case attr_of_line u of Inl e \<Rightarrow> (Inl e, positioned r p)
            | Inr tok \<Rightarrow> (Inr tok, positioned r p))"
  using assms
  by (simp add: parseAttrTypeandValue_def unfoldLDIFLine_single simple_line_def
      skip_comments_none)

lemma parse_blank_line:
  assumes "nofold r"
  shows "parseAttrTypeandValue (positioned (LF # r) p) = (Inr (None, None), positioned r p)"
  using assms unfoldLDIFLine_single [of "[]" r p]
  by (simp add: parseAttrTypeandValue_def skip_comments_none attr_of_line_def ascii_def)

lemma parse_eof:
  "parseAttrTypeandValue (positioned [] p) = (Inr (None, None), positioned [] p)"
proof -
  have "read_next (positioned [] p) = positioned [] p"
    by (simp add: read_next_positioned)
  then have "unfoldLDIFLine (positioned [] p) = (Inr [], positioned [] p)"
    using unfold_loop_nofold [of "[]" "[[]]" p]
    by (simp add: unfoldLDIFLine_def ascii_def stripLineSep_def nofold_def)
  then show ?thesis
    by (simp add: parseAttrTypeandValue_def skip_comments_none attr_of_line_def)
qed


definition read_record ::
  "string option \<times> string option \<times> entry \<Rightarrow> parser \<Rightarrow>
   (error + (string option \<times> entry)) \<times> parser" where
  "read_record st p =
     (case parseAttrTypeandValue p of
        (Inl e, p') \<Rightarrow> (Inl e, p')
      | (Inr tok, p') \<Rightarrow> record_loop st tok p')"

fun assemble ::
  "string list \<Rightarrow> string option \<times> string option \<times> entry \<Rightarrow> string list \<Rightarrow>
   error + (string option \<times> string option \<times> entry)" where
  "assemble ignored st [] = Inr st"
| "assemble ignored st (u # us) =
     (case attr_of_line u of
        Inl e \<Rightarrow> Inl e
      | Inr (Some t, Some v) \<Rightarrow>
          (case record_step ignored st t v of
             Inl e \<Rightarrow> Inl e
           | Inr st' \<Rightarrow> assemble ignored st' us)
      | Inr _ \<Rightarrow> Inr st)"

definition attr_line :: "string \<Rightarrow> bool" where
  "attr_line u =
     (case attr_of_line u of Inl e \<Rightarrow> True | Inr (a, b) \<Rightarrow> a \<noteq> None \<and> b \<noteq> None)"

lemma lines_text_simps [simp]:
  "lines_text [] = []"
  "lines_text (u # us) = u @ LF # lines_text us"
  by (simp_all add: lines_text_def)

lemma nofold_simps [simp]:
  "nofold []"
  "nofold (c # s) \<longleftrightarrow> c \<noteq> CHR '' ''"
  by (simp_all add: nofold_def)

lemma nofold_append: "a \<noteq> [] \<Longrightarrow> nofold (a @ b) \<longleftrightarrow> hd a \<noteq> CHR '' ''"
  by (cases a) simp_all

lemma nofold_lines_text:
  assumes "\<forall>u\<in>set us. simple_line u" "nofold r"
  shows "nofold (lines_text us @ r)"
proof (cases us)
  case Nil
  then show ?thesis using assms by simp
next
  case (Cons u us')
  then have "u \<noteq> []" "hd u \<noteq> CHR '' ''" using assms by (auto simp: simple_line_def)
  then show ?thesis using Cons by (cases u) simp_all
qed

lemma read_record_lines:
  assumes "\<forall>u\<in>set us. simple_line u \<and> attr_line u" "nofold r"
    and "assemble (ignored_attr_types p) st us = Inr st'"
  shows "read_record st (positioned (lines_text us @ r) p) = read_record st' (positioned r p)"
  using assms
proof (induction us arbitrary: st)
  case Nil
  then show ?case by simp
next
  case (Cons u us)
  let ?R = "lines_text us @ r"
  have nf: "nofold ?R" using Cons.prems by (intro nofold_lines_text) auto
  have su: "simple_line u" using Cons.prems by simp
  from Cons.prems obtain t v st1 where tok: "attr_of_line u = Inr (Some t, Some v)"
    and stp: "record_step (ignored_attr_types p) st t v = Inr st1"
    and rest: "assemble (ignored_attr_types p) st1 us = Inr st'"
    by (auto simp: attr_line_def split: sum.splits option.splits prod.splits)
  have "read_record st (positioned (lines_text (u # us) @ r) p)
          = record_loop st (Some t, Some v) (positioned ?R p)"
    by (simp add: read_record_def parse_simple_line [OF su nf] tok)
  also have "\<dots> = read_record st1 (positioned ?R p)"
    by (simp add: record_loop_step stp read_record_def)
  also have "\<dots> = read_record st' (positioned r p)"
    using Cons.prems rest by (intro Cons.IH) auto
  finally show ?case .
qed

lemma read_record_lines_error:
  assumes "\<forall>u\<in>set us. simple_line u \<and> attr_line u" "nofold r"
    and "assemble (ignored_attr_types p) st us = Inl e"
  shows "fst (read_record st (positioned (lines_text us @ r) p)) = Inl e"
  using assms
proof (induction us arbitrary: st)
  case Nil
  then show ?case by simp
next
  case (Cons u us)
  let ?R = "lines_text us @ r"
  have nf: "nofold ?R" using Cons.prems by (intro nofold_lines_text) auto
  have su: "simple_line u" using Cons.prems by simp
  have al: "attr_line u" using Cons.prems by simp
  show ?case
  proof (cases "attr_of_line u")
    case (Inl e')
    then show ?thesis using Cons.prems(3)
      by (simp add: read_record_def parse_simple_line [OF su nf])
  next
    case (Inr tok)
    with al obtain t v where tok: "attr_of_line u = Inr (Some t, Some v)"
      by (cases tok) (auto simp: attr_line_def)
    have rr: "read_record st (positioned (u @ LF # lines_text us @ r) p)
          = record_loop st (Some t, Some v) (positioned ?R p)"
      by (simp add: read_record_def parse_simple_line [OF su nf] tok)
    show ?thesis
    proof (cases "record_step (ignored_attr_types p) st t v")
      case (Inl e')
      then show ?thesis using Cons.prems(3) tok
        by (simp add: rr record_loop_step)
    next
      case (Inr st1)
      then have "assemble (ignored_attr_types p) st1 us = Inl e"
        using Cons.prems(3) tok by simp
      then have "fst (read_record st1 (positioned ?R p)) = Inl e"
        using Cons.prems by (intro Cons.IH) auto
      moreover have "read_record st (positioned (u @ LF # lines_text us @ r) p)
          = read_record st1 (positioned ?R p)"
        unfolding rr by (simp add: record_loop_step Inr read_record_def)
      ultimately show ?thesis by simp
    qed
  qed
qed

lemma read_record_blank:
  "nofold r \<Longrightarrow>
   read_record st (positioned (LF # r) p) = (Inr (fst st, snd (snd st)), positioned r p)"
  by (simp add: read_record_def parse_blank_line record_loop_stop)

lemma read_record_eof:
  "read_record st (positioned [] p) = (Inr (fst st, snd (snd st)), positioned [] p)"
  by (simp add: read_record_def parse_eof record_loop_stop)

lemma parse_loop_unfold:
  "parse_loop p =
     (if line p \<noteq> [] \<and> (max_entries p = 0 \<or> records_read p < max_entries p)
      then (case read_record (None, None, []) p of
              (Inl e, p2) \<Rightarrow> (Inl e, p2)
            | (Inr r, p2) \<Rightarrow> parse_loop (dispatch r p2))
      else (Inr (), p))"
  by (subst parse_loop.simps)
     (auto simp: read_record_def split: prod.splits sum.splits)


lemma is_dn_accepts_example: "is_dn ''cn=Bob,dc=example,dc=com''"
  by code_simp

lemma is_dn_accepts_empty: "is_dn []"
  by (simp add: is_dn_def)

lemma is_dn_rejects_empty_rdn: "\<not> is_dn ''cn=Bob,,dc=com''"
  by code_simp

lemma dn_pattern_prefix_example:
  "matches dn_pattern ''cn=Bob,,dc=com'' = ['',,dc=com'', ''b,,dc=com'', ''ob,,dc=com'']"
  by code_simp

lemma is_dn_full_match:
  assumes "is_dn s"
  shows "s = [] \<or> [] \<in> set (matches dn_pattern s)"
proof (cases "s = []")
  case True
  then show ?thesis by simp
next
  case False
  with assms obtain t ts where m: "matches dn_regex s = t # ts"
    and g: "take (length s - length t) s = s"
    by (auto simp: is_dn_def re_match_def split: list.splits option.splits)
  from g have "length s \<le> length s - length t"
    by (metis length_take min.cobounded2 min.commute)
  moreover from False have "0 < length s" by simp
  ultimately have "length t = 0" by arith
  then have "t = []" by simp
  then have "[] \<in> set (matches dn_regex s)" using m by simp
  then show ?thesis
    by (auto simp: dn_regex_def split: if_splits)
qed


definition frame :: "parser \<Rightarrow> parser \<Rightarrow> bool" where
  "frame p p' \<longleftrightarrow>
     max_entries p' = max_entries p \<and> ignored_attr_types p' = ignored_attr_types p \<and>
     records_read p' = records_read p \<and> all_records p' = all_records p"

lemma frame_refl [simp]: "frame p p"
  by (simp add: frame_def)

lemma frame_trans: "frame p q \<Longrightarrow> frame q r \<Longrightarrow> frame p r"
  by (simp add: frame_def)

lemma frame_read_next [simp]: "frame p (read_next p)"
  by (simp add: frame_def read_next_def split: prod.splits)

lemma frame_unfold_loop: "frame p (snd (unfold_loop acc p))"
proof (induction acc p rule: unfold_loop.induct)
  case (1 acc p)
  show ?case
  proof (cases "line p \<noteq> [] \<and> hd (line p) = CHR '' ''")
    case True
    then have "unfold_loop acc p
        = unfold_loop (acc @ [stripLineSep (tl (line p))]) (read_next p)"
      by (subst unfold_loop.simps) simp
    with "1.IH" [OF True] show ?thesis
      using frame_trans [OF frame_read_next] by simp
  next
    case False
    then have "unfold_loop acc p = (acc, p)"
      by (subst unfold_loop.simps) auto
    then show ?thesis by simp
  qed
qed

lemma frame_unfoldLDIFLine: "frame p (snd (unfoldLDIFLine p))"
proof -
  have "frame p (snd (unfold_loop [stripLineSep (line p)] (read_next p)))"
    using frame_trans [OF frame_read_next frame_unfold_loop] .
  then show ?thesis
    by (auto simp: unfoldLDIFLine_def split: prod.splits)
qed

lemma frame_skip_comments: "frame p (snd (skip_comments u p))"
proof (induction u p rule: skip_comments.induct)
  case (1 u p)
  show ?case
  proof (cases "u \<noteq> [] \<and> hd u = CHR ''#''")
    case True
    obtain r q where uf: "unfoldLDIFLine p = (r, q)"
      by (cases "unfoldLDIFLine p")
    have fq: "frame p q" using frame_unfoldLDIFLine [of p] uf by simp
    show ?thesis
    proof (cases r)
      case (Inl e)
      then show ?thesis using True uf fq
        by (subst skip_comments.simps) simp
    next
      case (Inr v)
      have "skip_comments u p = skip_comments v q"
        using True uf Inr by (subst skip_comments.simps) simp
      with "1.IH" [OF True uf [symmetric] Inr] fq show ?thesis
        using frame_trans by simp
    qed
  next
    case False
    then have "skip_comments u p = (Inr u, p)"
      by (subst skip_comments.simps) auto
    then show ?thesis by simp
  qed
qed

lemma frame_parseAttrTypeandValue: "frame p (snd (parseAttrTypeandValue p))"
proof -
  obtain r q where uf: "unfoldLDIFLine p = (r, q)"
    by (cases "unfoldLDIFLine p")
  have fq: "frame p q" using frame_unfoldLDIFLine [of p] uf by simp
  show ?thesis
  proof (cases r)
    case (Inl e)
    then show ?thesis using uf fq by (simp add: parseAttrTypeandValue_def)
  next
    case (Inr u)
    have "frame q (snd (skip_comments u q))" by (rule frame_skip_comments)
    with fq have "frame p (snd (skip_comments u q))" by (rule frame_trans)
    then show ?thesis using uf Inr
      by (auto simp: parseAttrTypeandValue_def split: prod.splits sum.splits)
  qed
qed

lemma frame_record_loop: "frame p (snd (record_loop st tok p))"
proof (induction st tok p rule: record_loop.induct)
  case (1 st tok p)
  obtain a b where tok: "tok = (a, b)" by (cases tok)
  show ?case
  proof (cases "a = None \<or> b = None")
    case True
    then show ?thesis unfolding tok by (simp add: record_loop_stop)
  next
    case False
    then obtain t v where tv: "a = Some t" "b = Some v" by auto
    show ?thesis
    proof (cases "record_step (ignored_attr_types p) st t v")
      case (Inl e)
      then show ?thesis unfolding tok tv by (simp add: record_loop_step)
    next
      case (Inr st')
      obtain x q where pa: "parseAttrTypeandValue p = (x, q)"
        by (cases "parseAttrTypeandValue p")
      have fq: "frame p q" using frame_parseAttrTypeandValue [of p] pa by simp
      show ?thesis
      proof (cases x)
        case (Inl e)
        then show ?thesis unfolding tok tv using Inr pa fq by (simp add: record_loop_step)
      next
        case tk: (Inr tok')
        from "1.IH" [OF tok [symmetric] tv(1) tv(2) Inr pa [symmetric] tk]
        have "frame q (snd (record_loop st' tok' q))" .
        with fq have "frame p (snd (record_loop st' tok' q))" by (rule frame_trans)
        then show ?thesis unfolding tok tv using Inr pa tk by (simp add: record_loop_step)
      qed
    qed
  qed
qed

lemma frame_read_record: "frame p (snd (read_record st p))"
proof -
  obtain x q where pa: "parseAttrTypeandValue p = (x, q)"
    by (cases "parseAttrTypeandValue p")
  have fq: "frame p q" using frame_parseAttrTypeandValue [of p] pa by simp
  show ?thesis
  proof (cases x)
    case (Inl e)
    then show ?thesis using pa fq by (simp add: read_record_def)
  next
    case (Inr tok)
    have "frame q (snd (record_loop st tok q))" by (rule frame_record_loop)
    with fq have "frame p (snd (record_loop st tok q))" by (rule frame_trans)
    then show ?thesis using pa Inr by (simp add: read_record_def)
  qed
qed


section \<open>Inputs made of records\<close>

text \<open>
  The inputs of the claims about whole runs: a record is written as a list of simple
  lines, each followed by a line feed, and ended by an empty line. \<open>assemble\<close> runs
  the loop body \<open>record_step\<close> over the lines of a record; a record is good when each of
  its lines gives an attribute and no line raises. \<open>record_of\<close> is the pair the handler
  is called with, \<open>dispatched\<close> keeps the records whose entry is not empty.
\<close>

definition record_text :: "string list \<Rightarrow> string" where
  "record_text us = lines_text us @ [LF]"

definition ldif_text :: "string list list \<Rightarrow> string" where
  "ldif_text recs = concat (map record_text recs)"

definition record_of :: "string list \<Rightarrow> string list \<Rightarrow> string option \<times> entry" where
  "record_of ignored us =
     (case assemble ignored (None, None, []) us of
        Inl e \<Rightarrow> (None, [])
      | Inr st \<Rightarrow> (fst st, snd (snd st)))"

definition good_record :: "string list \<Rightarrow> string list \<Rightarrow> bool" where
  "good_record ignored us \<longleftrightarrow>
     list_all (\<lambda>u. simple_line u \<and> attr_line u) us \<and>
     (case assemble ignored (None, None, []) us of Inl e \<Rightarrow> False | Inr st \<Rightarrow> True)"

definition dispatched :: "string list \<Rightarrow> string list list \<Rightarrow> (string option \<times> entry) list" where
  "dispatched ignored recs = filter (\<lambda>r. snd r \<noteq> []) (map (record_of ignored) recs)"

definition deliver :: "(string option \<times> entry) list \<Rightarrow> parser \<Rightarrow> parser" where
  "deliver rs p =
     p\<lparr>all_records := all_records p @ rs, records_read := records_read p + int (length rs)\<rparr>"

lemma ldif_text_simps [simp]:
  "ldif_text [] = []"
  "ldif_text (us # recs) = lines_text us @ LF # ldif_text recs"
  by (simp_all add: ldif_text_def record_text_def)

lemma dispatch_positioned: "dispatch r (positioned s p) = positioned s (dispatch r p)"
  by (cases r) (simp add: dispatch_def handle_def positioned_def read_next_def Let_def
      split: prod.splits)

lemma dispatch_deliver: "dispatch r p = deliver (if snd r \<noteq> [] then [r] else []) p"
  by (cases r) (simp add: dispatch_def handle_def deliver_def Let_def)

lemma deliver_deliver: "deliver rs (deliver qs p) = deliver (qs @ rs) p"
  by (simp add: deliver_def)

lemma deliver_fields [simp]:
  "max_entries (deliver rs p) = max_entries p"
  "ignored_attr_types (deliver rs p) = ignored_attr_types p"
  "records_read (deliver rs p) = records_read p + int (length rs)"
  "all_records (deliver rs p) = all_records p @ rs"
  by (simp_all add: deliver_def)

lemma nofold_ldif_text:
  assumes "\<forall>us\<in>set recs. \<forall>u\<in>set us. simple_line u" "nofold r"
  shows "nofold (ldif_text recs @ r)"
proof (cases recs)
  case Nil
  then show ?thesis using assms by simp
next
  case (Cons us recs')
  have "nofold (lines_text us @ (LF # ldif_text recs' @ r))"
    using assms Cons by (intro nofold_lines_text) auto
  then show ?thesis using Cons by simp
qed

lemma positioned_line_nonempty: "s \<noteq> [] \<Longrightarrow> line (positioned s p) \<noteq> []"
  by (simp add: readline_Nil_iff)

lemma parse_loop_records:
  assumes "\<forall>us\<in>set recs. good_record (ignored_attr_types p) us" "nofold r"
    and "max_entries p = 0 \<or> records_read p + int (length recs) \<le> max_entries p"
  shows "parse_loop (positioned (ldif_text recs @ r) p)
           = parse_loop (positioned r (deliver (dispatched (ignored_attr_types p) recs) p))"
  using assms
proof (induction recs arbitrary: p)
  case Nil
  then show ?case by (simp add: dispatched_def deliver_def)
next
  case (Cons us recs)
  let ?ign = "ignored_attr_types p"
  let ?R = "ldif_text recs @ r"
  from Cons.prems(1) have good: "good_record ?ign us" by simp
  then obtain st where asm: "assemble ?ign (None, None, []) us = Inr st"
    and ls: "\<forall>u\<in>set us. simple_line u \<and> attr_line u"
    by (auto simp: good_record_def list_all_iff split: sum.splits)
  have nfR: "nofold ?R"
    using Cons.prems by (intro nofold_ldif_text) (auto simp: good_record_def list_all_iff)
  have ro: "record_of ?ign us = (fst st, snd (snd st))"
    by (simp add: record_of_def asm)
  have rd: "read_record (None, None, []) (positioned (lines_text us @ LF # ?R) p)
              = (Inr (record_of ?ign us), positioned ?R p)"
    using read_record_lines [OF ls _ asm, of "LF # ?R"] nfR
    by (simp add: read_record_blank ro)
  have ne: "line (positioned (lines_text us @ LF # ?R) p) \<noteq> []"
    by (rule positioned_line_nonempty) simp
  have cap: "max_entries p = 0 \<or> records_read p < max_entries p"
    using Cons.prems(3) by auto
  let ?q = "dispatch (record_of ?ign us) p"
  have step: "parse_loop (positioned (ldif_text (us # recs) @ r) p)
                = parse_loop (positioned ?R ?q)"
    using ne cap
    by (subst parse_loop_unfold) (simp add: rd dispatch_positioned)
  have q: "?q = deliver (if snd (record_of ?ign us) \<noteq> [] then [record_of ?ign us] else []) p"
    by (rule dispatch_deliver)
  have "parse_loop (positioned ?R ?q)
          = parse_loop (positioned r (deliver (dispatched (ignored_attr_types ?q) recs) ?q))"
  proof (rule Cons.IH)
    show "\<forall>us\<in>set recs. good_record (ignored_attr_types ?q) us"
      using Cons.prems(1) by (simp add: q)
    show "nofold r" by fact
    show "max_entries ?q = 0 \<or> records_read ?q + int (length recs) \<le> max_entries ?q"
      using Cons.prems(3) by (auto simp: q)
  qed
  also have "deliver (dispatched (ignored_attr_types ?q) recs) ?q
               = deliver (dispatched ?ign (us # recs)) p"
    by (simp add: q deliver_deliver dispatched_def)
  finally show ?case using step by simp
qed

lemma parse_loop_stop:
  "line p = [] \<or> (max_entries p \<noteq> 0 \<and> max_entries p \<le> records_read p) \<Longrightarrow>
   parse_loop p = (Inr (), p)"
  by (subst parse_loop.simps) auto

lemma parse_positioned: "parse p = parse_loop (positioned (input_file p) p)"
  by (simp add: parse_def positioned_def)

lemma init_fields [simp]:
  "input_file (LDIFParser_init f ign m) = f"
  "max_entries (LDIFParser_init f ign m) = m"
  "ignored_attr_types (LDIFParser_init f ign m) = map lower ign"
  "records_read (LDIFParser_init f ign m) = 0"
  "all_records (LDIFParser_init f ign m) = []"
  by (simp_all add: LDIFParser_init_def)



lemma readline_append: "fst (readline s) @ snd (readline s) = s"
  by (induction s) (auto split: prod.splits)

lemma positioned_unread_text: "line (positioned s p) @ input_file (positioned s p) = s"
  by (simp add: readline_append)

lemma parse_records_uncapped:
  assumes "list_all (good_record (map lower ignored)) recs"
  shows "parse (LDIFParser_init (ldif_text recs) ignored 0)
           = (Inr (), positioned []
                (deliver (dispatched (map lower ignored) recs)
                   (LDIFParser_init (ldif_text recs) ignored 0)))"
proof -
  let ?p = "LDIFParser_init (ldif_text recs) ignored 0"
  have "parse ?p = parse_loop (positioned (ldif_text recs @ []) ?p)"
    by (simp add: parse_positioned)
  also have "\<dots> = parse_loop (positioned [] (deliver (dispatched (ignored_attr_types ?p) recs) ?p))"
    using assms by (intro parse_loop_records) (auto simp: list_all_iff)
  also have "\<dots> = (Inr (), positioned [] (deliver (dispatched (ignored_attr_types ?p) recs) ?p))"
    by (rule parse_loop_stop) simp
  finally show ?thesis by simp
qed

lemma dispatched_all_nonempty:
  "list_all (\<lambda>us. snd (record_of ign us) \<noteq> []) recs \<Longrightarrow>
   dispatched ign recs = map (record_of ign) recs"
  by (induction recs) (auto simp: dispatched_def)

lemma dispatched_append: "dispatched ign (a @ b) = dispatched ign a @ dispatched ign b"
  by (simp add: dispatched_def)


section \<open>The assembler on the pairs of a record\<close>

text \<open>
  \<open>steps\<close> runs the loop body over the pairs of attribute type and value that the
  lines of a record give; \<open>tokens us ts\<close> says that the lines \<open>us\<close> give the pairs
  \<open>ts\<close>, none of them with a \<^verbatim>\<open>None\<close>.
\<close>

fun steps ::
  "string list \<Rightarrow> string option \<times> string option \<times> entry \<Rightarrow> (string \<times> string) list \<Rightarrow>
   error + (string option \<times> string option \<times> entry)" where
  "steps ignored st [] = Inr st"
| "steps ignored st (tv # ts) =
     (case record_step ignored st (fst tv) (snd tv) of
        Inl e \<Rightarrow> Inl e
      | Inr st' \<Rightarrow> steps ignored st' ts)"

definition tokens :: "string list \<Rightarrow> (string \<times> string) list \<Rightarrow> bool" where
  "tokens us ts \<longleftrightarrow>
     map attr_of_line us = map (\<lambda>tv. Inr (Some (fst tv), Some (snd tv))) ts"

lemma tokens_Nil [simp]: "tokens [] ts \<longleftrightarrow> ts = []"
  by (auto simp: tokens_def)

lemma tokens_Cons:
  "tokens (u # us) ts \<longleftrightarrow>
     (\<exists>tv ts'. ts = tv # ts' \<and> attr_of_line u = Inr (Some (fst tv), Some (snd tv)) \<and> tokens us ts')"
  by (cases ts) (auto simp: tokens_def)

lemma assemble_steps: "tokens us ts \<Longrightarrow> assemble ign st us = steps ign st ts"
proof (induction us arbitrary: ts st)
  case Nil
  then show ?case by simp
next
  case (Cons u us)
  then obtain tv ts' where ts: "ts = tv # ts'"
    and tok: "attr_of_line u = Inr (Some (fst tv), Some (snd tv))" and rest: "tokens us ts'"
    by (auto simp: tokens_Cons)
  show ?case
    using Cons.IH [OF rest] by (simp add: ts tok split: sum.splits)
qed

lemma tokens_attr_line: "tokens us ts \<Longrightarrow> u \<in> set us \<Longrightarrow> attr_line u"
proof (induction us arbitrary: ts)
  case Nil
  then show ?case by simp
next
  case (Cons a us)
  then show ?case by (auto simp: tokens_Cons attr_line_def)
qed

lemma record_step_error: "record_step ign st t v = Inl e \<Longrightarrow> \<exists>x. e = ValueError x"
  by (cases st) (auto simp: record_step_def split: if_splits)

lemma steps_error: "steps ign st ts = Inl e \<Longrightarrow> \<exists>x. e = ValueError x"
proof (induction ts arbitrary: st)
  case Nil
  then show ?case by simp
next
  case (Cons tv ts)
  then show ?case
    by (cases "record_step ign st (fst tv) (snd tv)") (auto dest: record_step_error)
qed

subsection \<open>Records without a dn line\<close>

lemma entry_add_nonempty [simp]: "entry_add entry t v \<noteq> []"
  by (auto simp: entry_add_def)

lemma steps_ordinary:
  assumes "\<forall>tv\<in>set ts. fst tv \<noteq> ''dn'' \<and> fst tv \<noteq> ''changetype''"
  shows "\<exists>entry'. steps ign (dn, ct, entry) ts = Inr (dn, ct, entry') \<and>
           (entry \<noteq> [] \<or> (\<exists>tv\<in>set ts. lower (fst tv) \<notin> set ign) \<longrightarrow> entry' \<noteq> [])"
  using assms
proof (induction ts arbitrary: entry)
  case Nil
  then show ?case by simp
next
  case (Cons tv ts)
  show ?case
  proof (cases "lower (fst tv) \<notin> set ign")
    case True
    then have "record_step ign (dn, ct, entry) (fst tv) (snd tv)
                 = Inr (dn, ct, entry_add entry (fst tv) (snd tv))"
      using Cons.prems by (simp add: record_step_def)
    moreover obtain e' where "steps ign (dn, ct, entry_add entry (fst tv) (snd tv)) ts = Inr (dn, ct, e')"
      and "e' \<noteq> []"
      using Cons.IH [of "entry_add entry (fst tv) (snd tv)"] Cons.prems by auto
    ultimately show ?thesis by simp
  next
    case False
    then have "record_step ign (dn, ct, entry) (fst tv) (snd tv) = Inr (dn, ct, entry)"
      using Cons.prems by (simp add: record_step_def)
    moreover obtain e' where "steps ign (dn, ct, entry) ts = Inr (dn, ct, e')"
      and "entry \<noteq> [] \<or> (\<exists>tv\<in>set ts. lower (fst tv) \<notin> set ign) \<longrightarrow> e' \<noteq> []"
      using Cons.IH [of entry] Cons.prems by auto
    ultimately show ?thesis using False by auto
  qed
qed

subsection \<open>Records that break the rules for dn and changetype\<close>

definition second_dn :: "(string \<times> string) list \<Rightarrow> bool" where
  "second_dn ts = (2 \<le> length (filter (\<lambda>tv. fst tv = ''dn'') ts))"

definition invalid_dn :: "(string \<times> string) list \<Rightarrow> bool" where
  "invalid_dn ts = list_ex (\<lambda>tv. fst tv = ''dn'' \<and> \<not> is_dn (snd tv)) ts"

definition changetype_before_dn :: "(string \<times> string) list \<Rightarrow> bool" where
  "changetype_before_dn ts =
     (case filter (\<lambda>tv. fst tv = ''dn'' \<or> fst tv = ''changetype'') ts of
        [] \<Rightarrow> False
      | tv # _ \<Rightarrow> fst tv = ''changetype'')"

definition second_changetype :: "(string \<times> string) list \<Rightarrow> bool" where
  "second_changetype ts = (2 \<le> length (filter (\<lambda>tv. fst tv = ''changetype'') ts))"

definition invalid_changetype :: "(string \<times> string) list \<Rightarrow> bool" where
  "invalid_changetype ts =
     list_ex (\<lambda>tv. fst tv = ''changetype'' \<and> snd tv \<notin> set CHANGE_TYPES) ts"

definition violation :: "(string \<times> string) list \<Rightarrow> bool" where
  "violation ts \<longleftrightarrow>
     second_dn ts \<or> invalid_dn ts \<or> changetype_before_dn ts \<or> second_changetype ts \<or>
     invalid_changetype ts"

lemma record_step_dn_kept:
  "record_step ign st t v = Inr st' \<Longrightarrow> fst st \<noteq> None \<Longrightarrow> fst st' \<noteq> None"
  by (cases st) (auto simp: record_step_def split: if_splits)

lemma record_step_dn_set:
  "record_step ign st ''dn'' v = Inr st' \<Longrightarrow> fst st' \<noteq> None"
  by (cases st) (auto simp: record_step_def split: if_splits)

lemma record_step_dn_none:
  "record_step ign st t v = Inr st' \<Longrightarrow> t \<noteq> ''dn'' \<Longrightarrow> fst st' = fst st"
  by (cases st) (auto simp: record_step_def split: if_splits)

lemma record_step_ct_kept:
  "record_step ign st t v = Inr st' \<Longrightarrow> fst (snd st) \<noteq> None \<Longrightarrow> fst (snd st') \<noteq> None"
  by (cases st) (auto simp: record_step_def split: if_splits)

lemma record_step_ct_set:
  "record_step ign st ''changetype'' v = Inr st' \<Longrightarrow> fst (snd st') \<noteq> None"
  by (cases st) (auto simp: record_step_def split: if_splits)

lemma steps_dn_again:
  "fst st \<noteq> None \<Longrightarrow> ''dn'' \<in> fst ` set ts \<Longrightarrow> \<exists>e. steps ign st ts = Inl e"
proof (induction ts arbitrary: st)
  case Nil
  then show ?case by simp
next
  case (Cons tv ts)
  show ?case
  proof (cases "record_step ign st (fst tv) (snd tv)")
    case (Inl e)
    then show ?thesis by simp
  next
    case (Inr st')
    have "fst tv \<noteq> ''dn''"
      using Inr Cons.prems(1) by (cases st) (auto simp: record_step_def split: if_splits)
    then have "''dn'' \<in> fst ` set ts" using Cons.prems(2) by auto
    moreover have "fst st' \<noteq> None" using Inr Cons.prems(1) by (rule record_step_dn_kept)
    ultimately show ?thesis using Cons.IH [of st'] Inr by simp
  qed
qed

lemma steps_second_dn: "second_dn ts \<Longrightarrow> \<exists>e. steps ign st ts = Inl e"
proof (induction ts arbitrary: st)
  case Nil
  then show ?case by (simp add: second_dn_def)
next
  case (Cons tv ts)
  show ?case
  proof (cases "record_step ign st (fst tv) (snd tv)")
    case (Inl e)
    then show ?thesis by simp
  next
    case (Inr st')
    show ?thesis
    proof (cases "fst tv = ''dn''")
      case True
      then have "filter (\<lambda>tv. fst tv = ''dn'') ts \<noteq> []"
        using Cons.prems by (auto simp: second_dn_def)
      then obtain x where "x \<in> set ts" "fst x = ''dn''"
        by (auto simp: filter_empty_conv)
      then have "''dn'' \<in> fst ` set ts" by force
      moreover have "fst st' \<noteq> None"
        using Inr True record_step_dn_set [of ign st "snd tv" st'] by simp
      ultimately show ?thesis using steps_dn_again [of st' ts ign] Inr by simp
    next
      case False
      then have "second_dn ts" using Cons.prems by (simp add: second_dn_def)
      then show ?thesis using Cons.IH [of st'] Inr by simp
    qed
  qed
qed

lemma steps_ct_again:
  "fst (snd st) \<noteq> None \<Longrightarrow> ''changetype'' \<in> fst ` set ts \<Longrightarrow> \<exists>e. steps ign st ts = Inl e"
proof (induction ts arbitrary: st)
  case Nil
  then show ?case by simp
next
  case (Cons tv ts)
  show ?case
  proof (cases "record_step ign st (fst tv) (snd tv)")
    case (Inl e)
    then show ?thesis by simp
  next
    case (Inr st')
    have "fst tv \<noteq> ''changetype''"
      using Inr Cons.prems(1) by (cases st) (auto simp: record_step_def split: if_splits)
    then have "''changetype'' \<in> fst ` set ts" using Cons.prems(2) by auto
    moreover have "fst (snd st') \<noteq> None" using Inr Cons.prems(1) by (rule record_step_ct_kept)
    ultimately show ?thesis using Cons.IH [of st'] Inr by simp
  qed
qed

lemma steps_second_changetype: "second_changetype ts \<Longrightarrow> \<exists>e. steps ign st ts = Inl e"
proof (induction ts arbitrary: st)
  case Nil
  then show ?case by (simp add: second_changetype_def)
next
  case (Cons tv ts)
  show ?case
  proof (cases "record_step ign st (fst tv) (snd tv)")
    case (Inl e)
    then show ?thesis by simp
  next
    case (Inr st')
    show ?thesis
    proof (cases "fst tv = ''changetype''")
      case True
      then have "filter (\<lambda>tv. fst tv = ''changetype'') ts \<noteq> []"
        using Cons.prems by (auto simp: second_changetype_def)
      then obtain x where "x \<in> set ts" "fst x = ''changetype''"
        by (auto simp: filter_empty_conv)
      then have "''changetype'' \<in> fst ` set ts" by force
      moreover have "fst (snd st') \<noteq> None"
        using Inr True record_step_ct_set [of ign st "snd tv" st'] by simp
      ultimately show ?thesis using steps_ct_again [of st' ts ign] Inr by simp
    next
      case False
      then have "second_changetype ts" using Cons.prems by (simp add: second_changetype_def)
      then show ?thesis using Cons.IH [of st'] Inr by simp
    qed
  qed
qed

lemma steps_invalid_dn: "invalid_dn ts \<Longrightarrow> \<exists>e. steps ign st ts = Inl e"
proof (induction ts arbitrary: st)
  case Nil
  then show ?case by (simp add: invalid_dn_def)
next
  case (Cons tv ts)
  show ?case
  proof (cases "record_step ign st (fst tv) (snd tv)")
    case (Inl e)
    then show ?thesis by simp
  next
    case (Inr st')
    have "\<not> (fst tv = ''dn'' \<and> \<not> is_dn (snd tv))"
      using Inr by (cases st) (auto simp: record_step_def split: if_splits)
    then have "invalid_dn ts" using Cons.prems by (auto simp: invalid_dn_def)
    then show ?thesis using Cons.IH [of st'] Inr by simp
  qed
qed

lemma steps_invalid_changetype: "invalid_changetype ts \<Longrightarrow> \<exists>e. steps ign st ts = Inl e"
proof (induction ts arbitrary: st)
  case Nil
  then show ?case by (simp add: invalid_changetype_def)
next
  case (Cons tv ts)
  show ?case
  proof (cases "record_step ign st (fst tv) (snd tv)")
    case (Inl e)
    then show ?thesis by simp
  next
    case (Inr st')
    have "\<not> (fst tv = ''changetype'' \<and> snd tv \<notin> set CHANGE_TYPES)"
      using Inr by (cases st) (auto simp: record_step_def split: if_splits)
    then have "invalid_changetype ts" using Cons.prems by (auto simp: invalid_changetype_def)
    then show ?thesis using Cons.IH [of st'] Inr by simp
  qed
qed

lemma steps_changetype_before_dn:
  "changetype_before_dn ts \<Longrightarrow> fst st = None \<Longrightarrow> \<exists>e. steps ign st ts = Inl e"
proof (induction ts arbitrary: st)
  case Nil
  then show ?case by (simp add: changetype_before_dn_def)
next
  case (Cons tv ts)
  show ?case
  proof (cases "record_step ign st (fst tv) (snd tv)")
    case (Inl e)
    then show ?thesis by simp
  next
    case (Inr st')
    have nct: "fst tv \<noteq> ''changetype''"
      using Inr Cons.prems(2) by (cases st) (auto simp: record_step_def split: if_splits)
    have ndn: "fst tv \<noteq> ''dn''"
      using Cons.prems(1) nct by (auto simp: changetype_before_dn_def)
    have "changetype_before_dn ts"
      using Cons.prems(1) nct ndn by (simp add: changetype_before_dn_def)
    moreover have "fst st' = None"
      using record_step_dn_none [OF Inr ndn] Cons.prems(2) by simp
    ultimately show ?thesis using Cons.IH [of st'] Inr by simp
  qed
qed

lemma steps_violation:
  assumes "violation ts"
  shows "\<exists>x. steps ign (None, None, []) ts = Inl (ValueError x)"
proof -
  have "\<exists>e. steps ign (None, None, []) ts = Inl e"
    using assms steps_second_dn steps_invalid_dn steps_second_changetype
      steps_invalid_changetype steps_changetype_before_dn [of ts "(None, None, [])" ign]
    unfolding violation_def by auto
  then show ?thesis using steps_error by blast
qed


lemma length_dispatched: "length (dispatched ign recs) \<le> length recs"
  by (simp add: dispatched_def)

lemma lines_text_Nil_iff: "lines_text us = [] \<longleftrightarrow> us = []"
  by (cases us) simp_all


lemma parse_failing_record:
  assumes good: "list_all (good_record (map lower ignored)) recs"
    and reach: "M = 0 \<or> int (length recs) < M"
    and ls: "list_all (\<lambda>u. simple_line u \<and> attr_line u) us"
    and err: "assemble (map lower ignored) (None, None, []) us = Inl e"
    and nf: "nofold r"
  shows "\<exists>p'. parse (LDIFParser_init (ldif_text recs @ lines_text us @ r) ignored M) = (Inl e, p') \<and>
           all_records p' = dispatched (map lower ignored) recs \<and>
           records_read p' = int (length (dispatched (map lower ignored) recs))"
proof -
  let ?ign = "map lower ignored"
  let ?p = "LDIFParser_init (ldif_text recs @ lines_text us @ r) ignored M"
  let ?p1 = "deliver (dispatched ?ign recs) ?p"
  let ?q = "positioned (lines_text us @ r) ?p1"
  have ls': "\<forall>u\<in>set us. simple_line u \<and> attr_line u"
    using ls by (simp add: list_all_iff)
  have nfl: "nofold (lines_text us @ r)"
    using ls' nf by (intro nofold_lines_text) auto
  have "parse ?p = parse_loop (positioned (ldif_text recs @ (lines_text us @ r)) ?p)"
    by (simp add: parse_positioned)
  also have "\<dots> = parse_loop (positioned (lines_text us @ r)
                      (deliver (dispatched (ignored_attr_types ?p) recs) ?p))"
    using good nfl reach by (intro parse_loop_records) (auto simp: list_all_iff)
  finally have p1: "parse ?p = parse_loop ?q" by simp
  have "us \<noteq> []" using err by (cases us) auto
  then have ne: "line ?q \<noteq> []"
    by (intro positioned_line_nonempty) (simp add: lines_text_Nil_iff)
  have cap: "max_entries ?q = 0 \<or> records_read ?q < max_entries ?q"
    using reach length_dispatched [of ?ign recs] by auto
  obtain x p2 where rr: "read_record (None, None, []) ?q = (x, p2)"
    by (cases "read_record (None, None, []) ?q")
  have "assemble (ignored_attr_types ?p1) (None, None, []) us = Inl e"
    using err by simp
  from read_record_lines_error [OF ls' nf this]
  have x: "x = Inl e" using rr by simp
  have "frame ?q p2" using frame_read_record [of ?q "(None, None, [])"] rr by simp
  then have fr: "all_records p2 = dispatched ?ign recs"
    "records_read p2 = int (length (dispatched ?ign recs))"
    by (simp_all add: frame_def)
  have "parse_loop ?q = (Inl e, p2)"
    using ne cap by (subst parse_loop_unfold) (simp add: rr x)
  with p1 fr show ?thesis by simp
qed


lemma parse_broken_record:
  assumes "list_all (good_record (map lower ignored)) recs"
    and "M = 0 \<or> int (length recs) < M"
    and "list_all simple_line us"
    and "tokens us ts"
    and "steps (map lower ignored) (None, None, []) ts = Inl e"
    and "nofold r"
  shows "\<exists>p'. parse (LDIFParser_init (ldif_text recs @ lines_text us @ r) ignored M) = (Inl e, p') \<and>
           all_records p' = dispatched (map lower ignored) recs \<and>
           records_read p' = int (length (dispatched (map lower ignored) recs))"
proof -
  have "list_all (\<lambda>u. simple_line u \<and> attr_line u) us"
    using assms(3) tokens_attr_line [OF assms(4)] by (auto simp: list_all_iff)
  moreover have "assemble (map lower ignored) (None, None, []) us = Inl e"
    using assemble_steps [OF assms(4)] assms(5) by simp
  ultimately show ?thesis
    using assms(1,2,6) by (intro parse_failing_record)
qed

lemma assemble_append:
  "list_all attr_line us \<Longrightarrow>
   assemble ign st (us @ vs) =
     (case assemble ign st us of Inl e \<Rightarrow> Inl e | Inr st' \<Rightarrow> assemble ign st' vs)"
proof (induction us arbitrary: st)
  case Nil
  then show ?case by simp
next
  case (Cons u us)
  then show ?case
    by (auto simp: attr_line_def split: sum.splits option.splits prod.splits)
qed

lemma attr_of_line_base64:
  assumes "str_index CHR '':'' u = Some p" and "take 2 (drop p u) = ''::''"
  shows "attr_of_line u =
           (case decodestring (drop (p + 2) u) of
              Inl e \<Rightarrow> Inl e
            | Inr v \<Rightarrow> Inr (Some (take p u), Some v))"
proof -
  have "u \<noteq> []" "u \<noteq> [LF]" "u \<noteq> [CR, LF]"
    using assms(1) by (auto simp: str_index_def split: if_splits)
  then show ?thesis
    using assms by (simp add: attr_of_line_def Let_def)
qed

lemma tokenize_base64_example:
  "fst (parseAttrTypeandValue (read_next (LDIFParser_init ''attr:: aGVsbG8=\<newline>'' [] 0)))
     = Inr (Some ''attr'', Some ''hello'')"
  by code_simp

lemma parse_base64_failure:
  assumes "list_all (good_record (map lower ignored)) recs"
    and "M = 0 \<or> int (length recs) < M"
    and "list_all (\<lambda>u. simple_line u \<and> attr_line u) us"
    and "assemble (map lower ignored) (None, None, []) us = Inr st"
    and "simple_line u" and "str_index CHR '':'' u = Some pos"
    and "take 2 (drop pos u) = ''::''" and "decodestring (drop (pos + 2) u) = Inl e"
    and "nofold r"
  shows "\<exists>p'. parse (LDIFParser_init (ldif_text recs @ lines_text (us @ [u]) @ r) ignored M)
                = (Inl e, p') \<and>
              all_records p' = dispatched (map lower ignored) recs"
proof -
  have tu: "attr_of_line u = Inl e"
    using attr_of_line_base64 [OF assms(6,7)] assms(8) by simp
  then have "attr_line u" by (simp add: attr_line_def)
  then have ls: "list_all (\<lambda>u. simple_line u \<and> attr_line u) (us @ [u])"
    using assms(3,5) by simp
  have "list_all attr_line us" using assms(3) by (simp add: list_all_iff)
  then have "assemble (map lower ignored) (None, None, []) (us @ [u]) = Inl e"
    using assms(4) tu by (simp add: assemble_append)
  from parse_failing_record [OF assms(1,2) ls this assms(9)] show ?thesis by blast
qed


lemma str_index_drop:
  assumes "str_index c s = Some p"
  shows "drop p s = c # drop (Suc p) s" "take p s = takeWhile (\<lambda>x. x \<noteq> c) s"
proof -
  let ?P = "\<lambda>x. x \<noteq> c"
  from assms have c: "c \<in> set s" and p: "p = length (takeWhile ?P s)"
    by (auto simp: str_index_def split: if_splits)
  have d: "drop p s = dropWhile ?P s"
    unfolding p by (rule dropWhile_eq_drop [symmetric])
  from c have "dropWhile ?P s \<noteq> []" by auto
  moreover from this have "hd (dropWhile ?P s) = c"
    using hd_dropWhile [of ?P s] by simp
  ultimately have "dropWhile ?P s = c # tl (dropWhile ?P s)"
    by (cases "dropWhile ?P s") auto
  then show "drop p s = c # drop (Suc p) s"
    by (metis d drop_Suc tl_drop)
  show "take p s = takeWhile ?P s"
    unfolding p by (rule takeWhile_eq_take [symmetric])
qed

lemma str_index_append:
  "c \<notin> set t \<Longrightarrow> str_index c (t @ c # r) = Some (length t)"
proof -
  assume "c \<notin> set t"
  then have "takeWhile (\<lambda>x. x \<noteq> c) (t @ c # r) = t"
    by (induction t) auto
  then show ?thesis by (simp add: str_index_def)
qed

lemma attr_of_line_plain:
  assumes "str_index CHR '':'' u = Some p"
    and "take 2 (drop p u) \<noteq> ''::''" and "take 2 (drop p u) \<noteq> '':<''"
  shows "attr_of_line u = Inr (Some (take p u), Some (lstrip (drop (p + 2) u)))"
proof -
  from str_index_drop(1) [OF assms(1)] have d: "drop p u = CHR '':'' # drop (Suc p) u" .
  then have "u \<noteq> []" "u \<noteq> [LF]" "u \<noteq> [CR, LF]"
    using assms(1) by (auto simp: str_index_def split: if_splits)
  moreover have "take 2 (drop p u) \<noteq> [CHR '':'', CR, LF]"
    by (metis length_take min.cobounded2 length_Cons list.size(3) numeral_3_eq_3 not_less_eq_eq numeral_2_eq_2 order_refl)
  moreover have "take 2 (drop p u) \<noteq> [LF]"
    using d by (simp add: numeral_2_eq_2)
  ultimately show ?thesis
    using assms by (simp add: attr_of_line_def Let_def)
qed

lemma tokenize_plain_example:
  "fst (parseAttrTypeandValue (read_next (LDIFParser_init ''type:value\<newline>'' [] 0)))
     = Inr (Some ''type'', Some ''alue'')"
  by code_simp

lemma attr_of_line_no_space:
  assumes "CHR '':'' \<notin> set t" "c \<noteq> CHR '':''" "c \<noteq> CHR ''<''"
  shows "attr_of_line (t @ CHR '':'' # c # v) = Inr (Some t, Some (lstrip v))"
proof -
  have "str_index CHR '':'' (t @ CHR '':'' # c # v) = Some (length t)"
    using assms(1) by (rule str_index_append)
  from attr_of_line_plain [OF this] assms(2,3) show ?thesis by simp
qed



subsection \<open>Keys of the entries handed over\<close>









lemma ignored_dispatch [simp]: "ignored_attr_types (dispatch r p) = ignored_attr_types p"
  by (cases r) (simp add: dispatch_def handle_def Let_def)



section \<open>Folded lines\<close>











lemma ascii_Nil [simp]: "ascii []"
  by (simp add: ascii_def)












section \<open>Claims\<close>

text \<open>
  C5. \<open>is_dn\<close> accepts \<^verbatim>\<open>cn=Bob,dc=example,dc=com\<close> and the empty string and rejects
  \<^verbatim>\<open>cn=Bob,,dc=com\<close>, although the grammar matches the prefix \<^verbatim>\<open>cn=Bob\<close> of it; for
  every string, acceptance needs the DN grammar to match the whole input.
\<close>

theorem is_dn_anchored:
  "is_dn ''cn=Bob,dc=example,dc=com'' \<and> is_dn [] \<and> \<not> is_dn ''cn=Bob,,dc=com''
   \<and> '',,dc=com'' \<in> set (matches dn_pattern ''cn=Bob,,dc=com'')
   \<and> (\<forall>s. is_dn s \<longrightarrow> s = [] \<or> [] \<in> set (matches dn_pattern s))"
  using is_dn_accepts_example is_dn_accepts_empty is_dn_rejects_empty_rdn
    is_dn_full_match
  by (simp only: dn_pattern_prefix_example) simp

theorem is_dn_anchored_witness:
  "is_dn ''cn=a'' \<and> [] \<in> set (matches dn_pattern ''cn=a'')"
proof -
  have a: "is_dn ''cn=a''" by code_simp
  from is_dn_anchored have "is_dn ''cn=a'' \<longrightarrow> ''cn=a'' = [] \<or> [] \<in> set (matches dn_pattern ''cn=a'')"
    by blast
  with a show ?thesis by simp
qed

text \<open>
  Runs over good records, whose lines each give an attribute. With \<open>max_entries = 0\<close>
  such an input is parsed without error; the handler is called once for each record whose
  entry is not empty, in the order of the input, and \<open>records_read\<close> is the number of
  these calls: \<open>N\<close> when each of the \<open>N\<close> records has an entry that is not empty. A
  record with an empty entry is not handed over and not counted.
\<close>
theorem parse_handles_each_record_once:
  assumes "list_all (good_record (map lower ignored)) recs"
  shows "case parse (LDIFParser_init (ldif_text recs) ignored 0) of
           (res, p') \<Rightarrow>
             res = Inr () \<and>
             all_records p' = filter (\<lambda>r. snd r \<noteq> []) (map (record_of (map lower ignored)) recs) \<and>
             records_read p' = int (length (all_records p')) \<and>
             (list_all (\<lambda>us. snd (record_of (map lower ignored) us) \<noteq> []) recs \<longrightarrow>
                all_records p' = map (record_of (map lower ignored)) recs \<and>
                records_read p' = int (length recs))"
  using dispatched_all_nonempty [of "map lower ignored" recs]
  by (simp add: parse_records_uncapped [OF assms] dispatched_def)

definition example_records :: "string list list" where
  "example_records =
     [[''dn: cn=a,dc=x'', ''cn: a'', ''cn: A''], [''dn: cn=b,dc=x''],
      [''dn: cn=c,dc=x'', ''changetype: add'', ''sn:: aGVsbG8='']]"

theorem parse_handles_each_record_once_witness:
  "list_all (good_record (map lower [])) example_records \<and>
   (case parse (LDIFParser_init (ldif_text example_records) [] 0) of
      (res, p') \<Rightarrow> res = Inr () \<and>
        all_records p' = [(Some ''cn=a,dc=x'', [(''cn'', [''a'', ''A''])]),
                          (Some ''cn=c,dc=x'', [(''sn'', [''hello''])])] \<and>
        records_read p' = 2)"
proof -
  have g: "list_all (good_record (map lower [])) example_records"
    by code_simp
  have d: "filter (\<lambda>r. snd r \<noteq> []) (map (record_of (map lower [])) example_records)
             = [(Some ''cn=a,dc=x'', [(''cn'', [''a'', ''A''])]),
                (Some ''cn=c,dc=x'', [(''sn'', [''hello''])])]"
    by code_simp
  obtain res p' where pp: "parse (LDIFParser_init (ldif_text example_records) [] 0) = (res, p')"
    by (cases "parse (LDIFParser_init (ldif_text example_records) [] 0)")
  from parse_handles_each_record_once [OF g]
  have "res = Inr () \<and>
        all_records p' = filter (\<lambda>r. snd r \<noteq> []) (map (record_of (map lower [])) example_records) \<and>
        records_read p' = int (length (all_records p'))"
    unfolding pp prod.case by blast
  then have "res = Inr () \<and>
        all_records p' = [(Some ''cn=a,dc=x'', [(''cn'', [''a'', ''A''])]),
                          (Some ''cn=c,dc=x'', [(''sn'', [''hello''])])] \<and>
        records_read p' = 2"
    unfolding d by simp
  with g show ?thesis unfolding pp prod.case by blast
qed


text \<open>
  Where the lines of a record each give an attribute: after any good records, a record
  whose lines hold a second \<^verbatim>\<open>dn\<close>, a \<^verbatim>\<open>dn\<close> value that \<open>is_dn\<close> rejects, a
  \<^verbatim>\<open>changetype\<close> before any \<^verbatim>\<open>dn\<close>, a second \<^verbatim>\<open>changetype\<close>, or a \<^verbatim>\<open>changetype\<close>
  value other than \<^verbatim>\<open>add\<close>, \<^verbatim>\<open>delete\<close>, \<^verbatim>\<open>modify\<close>, \<^verbatim>\<open>modrdn\<close> makes \<open>parse\<close> raise a
  \<^verbatim>\<open>ValueError\<close>; the handler has then been called for the records before it only.
\<close>
theorem parse_raises_on_broken_record:
  assumes "list_all (good_record (map lower ignored)) recs"
    and "M = 0 \<or> int (length recs) < M"
    and "list_all simple_line us" and "tokens us ts" and "violation ts"
    and "nofold r"
  shows "\<exists>x p'. parse (LDIFParser_init (ldif_text recs @ lines_text us @ r) ignored M)
                  = (Inl (ValueError x), p') \<and>
           all_records p' = dispatched (map lower ignored) recs \<and>
           records_read p' = int (length (dispatched (map lower ignored) recs))"
proof -
  from steps_violation [OF assms(5)] obtain x
    where "steps (map lower ignored) (None, None, []) ts = Inl (ValueError x)" by blast
  from parse_broken_record [OF assms(1-4) this assms(6)] show ?thesis by blast
qed

theorem parse_raises_on_broken_record_witness:
  "list_all (good_record (map lower [])) [[''dn: cn=a'', ''cn: a'']] \<and>
   list_all simple_line [''dn: cn=b'', ''cn: b'', ''dn: cn=c''] \<and>
   tokens [''dn: cn=b'', ''cn: b'', ''dn: cn=c'']
     [(''dn'', ''cn=b''), (''cn'', ''b''), (''dn'', ''cn=c'')] \<and>
   violation [(''dn'', ''cn=b''), (''cn'', ''b''), (''dn'', ''cn=c'')] \<and>
   (\<exists>x p'. parse (LDIFParser_init
               (ldif_text [[''dn: cn=a'', ''cn: a'']]
                  @ lines_text [''dn: cn=b'', ''cn: b'', ''dn: cn=c''] @ []) [] 0)
             = (Inl (ValueError x), p') \<and>
           all_records p' = [(Some ''cn=a'', [(''cn'', [''a''])])] \<and> records_read p' = 1)"
proof -
  have g: "list_all (good_record (map lower [])) [[''dn: cn=a'', ''cn: a'']]"
    by code_simp
  have s: "list_all simple_line [''dn: cn=b'', ''cn: b'', ''dn: cn=c'']"
    by code_simp
  have t: "tokens [''dn: cn=b'', ''cn: b'', ''dn: cn=c'']
             [(''dn'', ''cn=b''), (''cn'', ''b''), (''dn'', ''cn=c'')]"
    by code_simp
  have v: "violation [(''dn'', ''cn=b''), (''cn'', ''b''), (''dn'', ''cn=c'')]"
    by code_simp
  have d: "dispatched (map lower []) [[''dn: cn=a'', ''cn: a'']]
             = [(Some ''cn=a'', [(''cn'', [''a''])])]"
    by code_simp
  have m: "(0::int) = 0 \<or> int (length [[''dn: cn=a'', ''cn: a'']]) < 0" by simp
  have n: "nofold []" by simp
  from parse_raises_on_broken_record [OF g m s t v n]
  have "\<exists>x p'. parse (LDIFParser_init
               (ldif_text [[''dn: cn=a'', ''cn: a'']]
                  @ lines_text [''dn: cn=b'', ''cn: b'', ''dn: cn=c''] @ []) [] 0)
             = (Inl (ValueError x), p') \<and>
           all_records p' = [(Some ''cn=a'', [(''cn'', [''a''])])] \<and> records_read p' = 1"
    unfolding d by simp
  with g s t v show ?thesis by blast
qed

text \<open>
  C9. A record of attribute lines none of which is a \<^verbatim>\<open>dn\<close> or \<^verbatim>\<open>changetype\<close> line,
  one of them at least not ignored, is handed to the handler with \<^verbatim>\<open>None\<close> as its dn
  (\<open>None\<close>, which is neither \<open>Some []\<close> nor any other string).
\<close>
theorem record_without_dn_is_dispatched:
  assumes "list_all (good_record (map lower ignored)) before"
    and "list_all (good_record (map lower ignored)) after"
    and "list_all simple_line us" and "tokens us ts"
    and "\<forall>tv\<in>set ts. fst tv \<noteq> ''dn'' \<and> fst tv \<noteq> ''changetype''"
    and "\<exists>tv\<in>set ts. lower (fst tv) \<notin> set (map lower ignored)"
  shows "\<exists>entry p'. entry \<noteq> [] \<and>
           parse (LDIFParser_init (ldif_text (before @ [us] @ after)) ignored 0) = (Inr (), p') \<and>
           all_records p' = dispatched (map lower ignored) before @ [(None, entry)]
                              @ dispatched (map lower ignored) after"
proof -
  let ?ign = "map lower ignored"
  from steps_ordinary [OF assms(5), of ?ign None None "[]"] assms(6)
  obtain entry where st: "steps ?ign (None, None, []) ts = Inr (None, None, entry)"
    and ne: "entry \<noteq> []" by blast
  have asm: "assemble ?ign (None, None, []) us = Inr (None, None, entry)"
    using assemble_steps [OF assms(4)] st by simp
  have "list_all (\<lambda>u. simple_line u \<and> attr_line u) us"
    using assms(3) tokens_attr_line [OF assms(4)] by (auto simp: list_all_iff)
  then have g: "good_record ?ign us" by (simp add: good_record_def asm)
  have ro: "record_of ?ign us = (None, entry)" by (simp add: record_of_def asm)
  have all: "list_all (good_record ?ign) (before @ [us] @ after)"
    using assms(1,2) g by simp
  have "dispatched ?ign (before @ [us] @ after)
          = dispatched ?ign before @ [(None, entry)] @ dispatched ?ign after"
    using ne by (simp add: dispatched_def ro)
  with parse_records_uncapped [OF all] ne show ?thesis by simp
qed

theorem record_without_dn_is_dispatched_witness:
  "list_all simple_line [''cn: a'', ''sn: b''] \<and>
   tokens [''cn: a'', ''sn: b''] [(''cn'', ''a''), (''sn'', ''b'')] \<and>
   (\<exists>entry p'. entry \<noteq> [] \<and>
      parse (LDIFParser_init (ldif_text ([] @ [[''cn: a'', ''sn: b'']] @ [])) [] 0) = (Inr (), p') \<and>
      all_records p' = [(None, entry)])"
proof -
  have s: "list_all simple_line [''cn: a'', ''sn: b'']" by code_simp
  have t: "tokens [''cn: a'', ''sn: b''] [(''cn'', ''a''), (''sn'', ''b'')]" by code_simp
  have o: "\<forall>tv\<in>set [(''cn'', ''a''), (''sn'', ''b'')]. fst tv \<noteq> ''dn'' \<and> fst tv \<noteq> ''changetype''"
    by simp
  have i: "\<exists>tv\<in>set [(''cn'', ''a''), (''sn'', ''b'')]. lower (fst tv) \<notin> set (map lower [])"
    by (rule bexI [of _ "(''cn'', ''a'')"]) simp_all
  have e: "list_all (good_record (map lower [])) []" by simp
  from record_without_dn_is_dispatched [OF e e s t o i]
  have "\<exists>entry p'. entry \<noteq> [] \<and>
      parse (LDIFParser_init (ldif_text ([] @ [[''cn: a'', ''sn: b'']] @ [])) [] 0) = (Inr (), p') \<and>
      all_records p' = [(None, entry)]"
    by (simp add: dispatched_def)
  with s t show ?thesis by blast
qed







text \<open>
  C1 (the code does otherwise). A line without a colon, or a \<^verbatim>\<open>:<\<close> line, ends the
  inner loop: the record read so far is handed over, and the lines after it start a new
  record, which has no dn.
\<close>
theorem nil_token_ends_record:
  "all_records (snd (parse (LDIFParser_init
      ''dn: cn=a\<newline>cn: a\<newline>badline\<newline>sn: b\<newline>\<newline>'' [] 0)))
     = [(Some ''cn=a'', [(''cn'', [''a''])]), (None, [(''sn'', [''b''])])] \<and>
   all_records (snd (parse (LDIFParser_init
      ''dn: cn=a\<newline>cn: a\<newline>photo:< file:///p\<newline>sn: b\<newline>\<newline>'' [] 0)))
     = [(Some ''cn=a'', [(''cn'', [''a''])]), (None, [(''sn'', [''b''])])]"
  by code_simp



lemma lstrip_decomp:
  "s = takeWhile is_space s @ lstrip s \<and> list_all is_space (takeWhile is_space s) \<and>
   (lstrip s = [] \<or> \<not> is_space (hd (lstrip s)))"
proof -
  have "list_all is_space (takeWhile is_space s)"
    by (auto simp: list_all_iff dest: set_takeWhileD)
  moreover have "lstrip s = [] \<or> \<not> is_space (hd (lstrip s))"
    unfolding lstrip_def using hd_dropWhile [of is_space s] by blast
  ultimately show ?thesis by (simp add: lstrip_def)
qed

lemma lstrip_spaces:
  assumes "list_all is_space ws" "v = [] \<or> \<not> is_space (hd v)"
  shows "lstrip (ws @ v) = v"
proof -
  have "dropWhile is_space (ws @ v) = dropWhile is_space v"
    using assms(1) by (intro dropWhile_append2) (simp add: list_all_iff)
  moreover have "dropWhile is_space v = v"
    using assms(2) by (cases v) auto
  ultimately show ?thesis by (simp add: lstrip_def)
qed

lemma is_space_chars:
  "list_all is_space
     [CHR 0x09, LF, CHR 0x0B, CHR 0x0C, CR, CHR 0x1C, CHR 0x1D, CHR 0x1E, CHR 0x1F, CHR '' '']"
  by code_simp

lemma tokenize_whitespace_example:
  "fst (parseAttrTypeandValue (read_next (LDIFParser_init
      (''type:v'' @ [CHR '' '', CHR 0x09] @ ''alue b '' @ [LF]) [] 0)))
     = Inr (Some ''type'', Some ''alue b '')"
  by code_simp

lemma tokenize_two_spaces_example:
  "fst (parseAttrTypeandValue (read_next (LDIFParser_init ''cn:  Bob\<newline>'' [] 0)))
     = Inr (Some ''cn'', Some ''Bob'')"
  by code_simp


text \<open>
  C10. When the two characters at the first colon are neither \<^verbatim>\<open>::\<close> nor \<^verbatim>\<open>:<\<close>, the
  value is what starts two characters after the colon, without its leading whitespace;
  so in \<^verbatim>\<open>type:value\<close> the character right after the colon is lost. Stripping cuts
  a string into a run of whitespace and a rest that does not start with whitespace, and
  gives the rest; tab, line feed, vertical tab, form feed, carriage return, the
  separators 0x1C to 0x1F and the space are whitespace.
\<close>
theorem value_starts_two_past_colon:
  "(str_index CHR '':'' u = Some p \<and> take 2 (drop p u) \<noteq> ''::'' \<and> take 2 (drop p u) \<noteq> '':<''
      \<longrightarrow> attr_of_line u = Inr (Some (take p u), Some (lstrip (drop (p + 2) u)))) \<and>
   (CHR '':'' \<notin> set t \<and> c \<noteq> CHR '':'' \<and> c \<noteq> CHR ''<'' \<and> \<not> is_space c
      \<longrightarrow> attr_of_line (t @ CHR '':'' # c # v) = Inr (Some t, Some (lstrip v))) \<and>
   fst (parseAttrTypeandValue (read_next (LDIFParser_init ''type:value\<newline>'' [] 0)))
     = Inr (Some ''type'', Some ''alue'') \<and>
   (s = takeWhile is_space s @ lstrip s \<and> list_all is_space (takeWhile is_space s) \<and>
      (lstrip s = [] \<or> \<not> is_space (hd (lstrip s)))) \<and>
   (list_all is_space ws \<and> (w = [] \<or> \<not> is_space (hd w)) \<longrightarrow> lstrip (ws @ w) = w) \<and>
   list_all is_space
     [CHR 0x09, LF, CHR 0x0B, CHR 0x0C, CR, CHR 0x1C, CHR 0x1D, CHR 0x1E, CHR 0x1F, CHR '' ''] \<and>
   fst (parseAttrTypeandValue (read_next (LDIFParser_init
      (''type:v'' @ [CHR '' '', CHR 0x09] @ ''alue b '' @ [LF]) [] 0)))
     = Inr (Some ''type'', Some ''alue b '') \<and>
   fst (parseAttrTypeandValue (read_next (LDIFParser_init ''cn:  Bob\<newline>'' [] 0)))
     = Inr (Some ''cn'', Some ''Bob'')"
  using attr_of_line_plain [of u p] attr_of_line_no_space [of t c v] tokenize_plain_example
    lstrip_decomp [of s] lstrip_spaces [of ws w] is_space_chars tokenize_whitespace_example
    tokenize_two_spaces_example
  by blast

theorem value_starts_two_past_colon_witness:
  "str_index CHR '':'' (''t:v'' @ [CHR '' '', CHR 0x09] @ ''x y'') = Some 1 \<and>
   attr_of_line (''t:v'' @ [CHR '' '', CHR 0x09] @ ''x y'') = Inr (Some ''t'', Some ''x y'') \<and>
   lstrip ([CHR '' '', CHR 0x09] @ ''x y'') = ''x y''"
proof -
  let ?u = "''t:v'' @ [CHR '' '', CHR 0x09] @ ''x y''"
  have i: "str_index CHR '':'' ?u = Some 1" by code_simp
  have a: "take 2 (drop 1 ?u) \<noteq> ''::''" by code_simp
  have b: "take 2 (drop 1 ?u) \<noteq> '':<''" by code_simp
  have t: "take 1 ?u = ''t''" by code_simp
  have d: "drop (1 + 2) ?u = [CHR '' '', CHR 0x09] @ ''x y''" by code_simp
  have w: "list_all is_space [CHR '' '', CHR 0x09]" by code_simp
  have n: "''x y'' = [] \<or> \<not> is_space (hd ''x y'')" by code_simp
  note inst = value_starts_two_past_colon [of ?u 1 "[]" "CHR ''a''" "[]" "[]"
      "[CHR '' '', CHR 0x09]" "''x y''"]
  from inst w n have l: "lstrip ([CHR '' '', CHR 0x09] @ ''x y'') = ''x y''" by blast
  from inst i a b
  have "attr_of_line ?u = Inr (Some (take 1 ?u), Some (lstrip (drop (1 + 2) ?u)))" by blast
  then have "attr_of_line ?u = Inr (Some ''t'', Some ''x y'')"
    unfolding t d l .
  with i l show ?thesis by blast
qed


text \<open>
  C8. \<^verbatim>\<open>attr:: aGVsbG8=\<close> gives the type \<^verbatim>\<open>attr\<close> and the value \<^verbatim>\<open>hello\<close>; after \<^verbatim>\<open>::\<close>
  the rest of the line is base64-decoded; and when the decoding of a line of a record
  fails, \<open>parse\<close> ends with that error, the handler having been called for the records
  before only.
\<close>
theorem base64_value_is_decoded:
  "fst (parseAttrTypeandValue (read_next (LDIFParser_init ''attr:: aGVsbG8=\<newline>'' [] 0)))
     = Inr (Some ''attr'', Some ''hello'') \<and>
   (str_index CHR '':'' u = Some p \<and> take 2 (drop p u) = ''::'' \<longrightarrow>
      attr_of_line u =
        (case decodestring (drop (p + 2) u) of
           Inl e \<Rightarrow> Inl e
         | Inr v \<Rightarrow> Inr (Some (take p u), Some v))) \<and>
   (list_all (good_record (map lower ignored)) recs \<and> (M = 0 \<or> int (length recs) < M) \<and>
    list_all (\<lambda>u. simple_line u \<and> attr_line u) us \<and>
    assemble (map lower ignored) (None, None, []) us = Inr st \<and>
    simple_line b \<and> str_index CHR '':'' b = Some pos \<and> take 2 (drop pos b) = ''::'' \<and>
    decodestring (drop (pos + 2) b) = Inl e \<and> nofold r \<longrightarrow>
      (\<exists>p'. parse (LDIFParser_init (ldif_text recs @ lines_text (us @ [b]) @ r) ignored M)
               = (Inl e, p') \<and>
             all_records p' = dispatched (map lower ignored) recs))"
  using tokenize_base64_example attr_of_line_base64 [of u p]
    parse_base64_failure [of ignored recs M us st b pos e r]
  by blast

theorem base64_value_is_decoded_witness:
  "str_index CHR '':'' ''attr:: aGVsbG8='' = Some 4 \<and>
   take 2 (drop 4 ''attr:: aGVsbG8='') = ''::'' \<and>
   attr_of_line ''attr:: aGVsbG8='' = Inr (Some ''attr'', Some ''hello'') \<and>
   list_all (good_record (map lower [])) [[''dn: cn=a'', ''cn: a'']] \<and>
   list_all (\<lambda>u. simple_line u \<and> attr_line u) [''dn: cn=b''] \<and>
   assemble (map lower []) (None, None, []) [''dn: cn=b''] = Inr (Some ''cn=b'', None, []) \<and>
   simple_line ''x:: a'' \<and> str_index CHR '':'' ''x:: a'' = Some 1 \<and>
   take 2 (drop 1 ''x:: a'') = ''::'' \<and>
   decodestring (drop (1 + 2) ''x:: a'') = Inl BinasciiError \<and>
   (\<exists>p'. parse (LDIFParser_init
             (ldif_text [[''dn: cn=a'', ''cn: a'']] @ lines_text ([''dn: cn=b''] @ [''x:: a'']) @ [])
             [] 0) = (Inl BinasciiError, p') \<and>
          all_records p' = [(Some ''cn=a'', [(''cn'', [''a''])])])"
proof -
  have i: "str_index CHR '':'' ''attr:: aGVsbG8='' = Some 4" by code_simp
  have s: "take 2 (drop 4 ''attr:: aGVsbG8='') = ''::''" by code_simp
  have d: "decodestring (drop (4 + 2) ''attr:: aGVsbG8='') = Inr ''hello''" by code_simp
  have t: "take 4 ''attr:: aGVsbG8='' = ''attr''" by code_simp
  have g: "list_all (good_record (map lower [])) [[''dn: cn=a'', ''cn: a'']]" by code_simp
  have l: "list_all (\<lambda>u. simple_line u \<and> attr_line u) [''dn: cn=b'']" by code_simp
  have a: "assemble (map lower []) (None, None, []) [''dn: cn=b''] = Inr (Some ''cn=b'', None, [])"
    by code_simp
  have sb: "simple_line ''x:: a''" by code_simp
  have ib: "str_index CHR '':'' ''x:: a'' = Some 1" by code_simp
  have tb: "take 2 (drop 1 ''x:: a'') = ''::''" by code_simp
  have db: "decodestring (drop (1 + 2) ''x:: a'') = Inl BinasciiError" by code_simp
  have dd: "dispatched (map lower []) [[''dn: cn=a'', ''cn: a'']]
              = [(Some ''cn=a'', [(''cn'', [''a''])])]" by code_simp
  have m: "(0::int) = 0 \<or> int (length [[''dn: cn=a'', ''cn: a'']]) < 0" by simp
  have n: "nofold []" by simp
  note inst = base64_value_is_decoded [of "''attr:: aGVsbG8=''" 4 "[]"
      "[[''dn: cn=a'', ''cn: a'']]" 0 "[''dn: cn=b'']" "(Some ''cn=b'', None, [])" "''x:: a''" 1
      BinasciiError "[]"]
  from inst i s have "attr_of_line ''attr:: aGVsbG8='' = Inr (Some ''attr'', Some ''hello'')"
    unfolding d t by simp
  moreover from inst g m l a sb ib tb db n
  have "\<exists>p'. parse (LDIFParser_init
             (ldif_text [[''dn: cn=a'', ''cn: a'']] @ lines_text ([''dn: cn=b''] @ [''x:: a'']) @ [])
             [] 0) = (Inl BinasciiError, p') \<and>
          all_records p' = [(Some ''cn=a'', [(''cn'', [''a''])])]"
    unfolding dd by blast
  ultimately show ?thesis using i s g l a sb ib tb db by blast
qed




text \<open>
  C2 (the code does otherwise). One record of valid LDIF with a \<^verbatim>\<open>:<\<close> line in it: the
  handler is called twice and \<open>records_read\<close> is 2, since the \<^verbatim>\<open>None\<close> value of that
  line ends the inner loop (the defect of C1).
\<close>
theorem url_line_splits_record:
  "fst (parse (LDIFParser_init
      ''dn: cn=a\<newline>cn: a\<newline>photo:< file:///p\<newline>sn: b\<newline>\<newline>'' [] 0)) = Inr () \<and>
   all_records (snd (parse (LDIFParser_init
      ''dn: cn=a\<newline>cn: a\<newline>photo:< file:///p\<newline>sn: b\<newline>\<newline>'' [] 0)))
     = [(Some ''cn=a'', [(''cn'', [''a''])]), (None, [(''sn'', [''b''])])] \<and>
   records_read (snd (parse (LDIFParser_init
      ''dn: cn=a\<newline>cn: a\<newline>photo:< file:///p\<newline>sn: b\<newline>\<newline>'' [] 0))) = 2"
  by code_simp


text \<open>
  C3 (the code does otherwise). A record with a second \<^verbatim>\<open>dn\<close> line after a \<^verbatim>\<open>:<\<close> line:
  \<open>parse\<close> raises nothing and hands over two records; and where that second \<^verbatim>\<open>dn\<close> is
  not a valid one, the error is raised after the handler was called for the first part
  of the record (the defect of C1).
\<close>
theorem url_line_hides_second_dn:
  "fst (parse (LDIFParser_init
      ''dn: cn=a\<newline>cn: a\<newline>photo:< file:///p\<newline>dn: cn=b\<newline>cn: b\<newline>\<newline>'' [] 0))
     = Inr () \<and>
   all_records (snd (parse (LDIFParser_init
      ''dn: cn=a\<newline>cn: a\<newline>photo:< file:///p\<newline>dn: cn=b\<newline>cn: b\<newline>\<newline>'' [] 0)))
     = [(Some ''cn=a'', [(''cn'', [''a''])]), (Some ''cn=b'', [(''cn'', [''b''])])] \<and>
   fst (parse (LDIFParser_init
      ''dn: cn=a\<newline>cn: a\<newline>photo:< file:///p\<newline>dn: cn=b,,c\<newline>\<newline>'' [] 0))
     = Inl (ValueError (InvalidDn ''cn=b,,c'')) \<and>
   all_records (snd (parse (LDIFParser_init
      ''dn: cn=a\<newline>cn: a\<newline>photo:< file:///p\<newline>dn: cn=b,,c\<newline>\<newline>'' [] 0)))
     = [(Some ''cn=a'', [(''cn'', [''a''])])]"
  by code_simp

end
